theory Spec2Isabelle
  imports Complex_Main "HOL-Library.Log_Nat"
begin

section \<open>JavaScript values\<close>

text \<open>
  A JavaScript string is a sequence of UTF-16 code units; a code unit is modelled as a
  natural number, so \<open>length\<close> is the \<open>.length\<close> of the source. \<open>js\<close> turns an ASCII
  literal of the source into its code units. A number is a double, modelled as the real
  it denotes; an arithmetic operation of the source is the exact operation followed by
  \<open>fl\<close>, the rounding to the nearest double. \<open>NaN\<close> and the infinities are outside the
  model. \<open>null\<close>/\<open>undefined\<close> is \<open>None\<close>.
\<close>

type_synonym jsstring = "nat list"

definition js :: "string \<Rightarrow> jsstring" where
  "js s = map of_char s"

datatype js_error = Error jsstring

text \<open>White space as \<open>String.prototype.trim\<close> and the regular expression class \<open>\s\<close> see it.\<close>

definition is_space :: "nat \<Rightarrow> bool" where
  "is_space c \<longleftrightarrow>
     c = 9 \<or> c = 10 \<or> c = 11 \<or> c = 12 \<or> c = 13 \<or> c = 32 \<or> c = 160 \<or> c = 5760 \<or>
     (8192 \<le> c \<and> c \<le> 8202) \<or> c = 8232 \<or> c = 8233 \<or> c = 8239 \<or> c = 8287 \<or>
     c = 12288 \<or> c = 65279"

definition trim :: "jsstring \<Rightarrow> jsstring" where
  "trim s = rev (dropWhile is_space (rev (dropWhile is_space s)))"

text \<open>\<open>!s\<close> for a string that may be absent: \<open>null\<close>, \<open>undefined\<close> and \<open>''\<close> are falsy.\<close>

definition falsy_str :: "jsstring option \<Rightarrow> bool" where
  "falsy_str s \<longleftrightarrow> (case s of None \<Rightarrow> True | Some t \<Rightarrow> t = [])"

text \<open>\<open>a || b\<close> on strings that may be absent.\<close>

definition or_str :: "jsstring option \<Rightarrow> jsstring option \<Rightarrow> jsstring option" where
  "or_str a b = (if falsy_str a then b else a)"

text \<open>\<open>a || b || 0\<close> on numbers that may be absent: \<open>0\<close> and \<open>undefined\<close> are falsy.\<close>

definition or_num0 :: "real option \<Rightarrow> real option \<Rightarrow> real" where
  "or_num0 a b =
     (case a of
        Some x \<Rightarrow> if x \<noteq> 0 then x else (case b of Some y \<Rightarrow> y | None \<Rightarrow> 0)
      | None \<Rightarrow> (case b of Some y \<Rightarrow> y | None \<Rightarrow> 0))"

subsection \<open>Double arithmetic\<close>

text \<open>\<open>pow2 k\<close> is 2 to the power \<open>k\<close>, for an integer \<open>k\<close> of either sign.\<close>

definition pow2 :: "int \<Rightarrow> real" where
  "pow2 k = (if 0 \<le> k then 2 ^ nat k else 1 / 2 ^ nat (- k))"

text \<open>
  The binary exponent of a positive real: \<open>pow2 (expo x) \<le> x < pow2 (expo x + 1)\<close>, found
  from the bit length of the integer part (of the reciprocal, below 1).
\<close>

definition expo :: "real \<Rightarrow> int" where
  "expo x = (if 1 \<le> x then bitlen \<lfloor>x\<rfloor> - 1 else - bitlen (\<lceil>1 / x\<rceil> - 1))"

text \<open>The nearest integer, a tie going to the even one.\<close>

definition round_even :: "real \<Rightarrow> int" where
  "round_even q =
     (let f = \<lfloor>q\<rfloor>; d = q - of_int f
      in if d < 1 / 2 then f else if 1 / 2 < d then f + 1 else if even f then f else f + 1)"

text \<open>
  \<open>fl x\<close>: the double nearest to \<open>x\<close> (IEEE 754 binary64, round to nearest, ties to even):
  a multiple of the unit in the last place, which is 52 binary places below the exponent
  of \<open>x\<close> and never below that of the subnormal numbers. A result beyond the largest double,
  where the source gets \<open>Infinity\<close>, is outside the model.
\<close>

definition fl :: "real \<Rightarrow> real" where
  "fl x =
     (if x = 0 then 0
      else let ulp = pow2 (max (expo \<bar>x\<bar>) (- 1022) - 52)
           in of_int (round_even (x / ulp)) * ulp)"

text \<open>\<open>Math.round\<close>: the nearest integer, a tie going up; the result is exact.\<close>

definition Math_round :: "real \<Rightarrow> int" where
  "Math_round x = \<lfloor>x + 1 / 2\<rfloor>"

section \<open>line-matcher.js\<close>

datatype strategy = FUZZY_TEXT | VECTOR_SEMANTIC | OPENAI_EMBEDDING

text \<open>
  A row of \<open>RECONCILIATION_HISTORICAL\<close> as a query returns it. The driver may spell a column
  in upper case or as declared, and the source reads both spellings; \<open>r_posting\<close> stands
  for the posting columns (postingKey ... lastUsedDate), which are copied through.
\<close>

record 'p row =
  r_ID :: jsstring
  r_WIRETEXT :: "jsstring option"
  r_wireText :: "jsstring option"
  r_SCORE :: "real option"
  r_score :: "real option"
  r_SIMILARITY :: "real option"
  r_similarity :: "real option"
  r_posting :: 'p

text \<open>A match object; \<open>rawScore\<close> is its \<open>score\<close> (fuzzy) or \<open>similarity\<close> (vector) field.\<close>

record 'p match =
  ID :: jsstring
  wireText :: "jsstring option"
  confidence :: real
  matchStrategy :: strategy
  rawScore :: real
  posting :: 'p

datatype query = FuzzySQL | VectorSQL | OpenAISQL

text \<open>\<open>db.run(query, [lineText])\<close>: the rows, or the error the backend raised.\<close>

type_synonym 'p db = "query \<Rightarrow> jsstring \<Rightarrow> js_error + 'p row list"

text \<open>\<open>Math.round((60 + (s * 35)) * 10) / 10\<close>, each operation rounded to a double.\<close>

definition toConfidence :: "real \<Rightarrow> real" where
  "toConfidence s = fl (of_int (Math_round (fl (fl (60 + fl (s * 35)) * 10))) / 10)"

definition fuzzyMatch :: "'p row \<Rightarrow> 'p match" where
  "fuzzyMatch record =
     (let score = or_num0 (r_SCORE record) (r_score record);
          confidence = toConfidence score
      in \<lparr> ID = r_ID record,
           wireText = or_str (r_WIRETEXT record) (r_wireText record),
           confidence = confidence,
           matchStrategy = FUZZY_TEXT,
           rawScore = score,
           posting = r_posting record \<rparr>)"

definition vectorMatch :: "'p row \<Rightarrow> 'p match" where
  "vectorMatch record =
     (let similarity = or_num0 (r_SIMILARITY record) (r_similarity record);
          confidence = toConfidence similarity
      in \<lparr> ID = r_ID record,
           wireText = or_str (r_WIRETEXT record) (r_wireText record),
           confidence = confidence,
           matchStrategy = VECTOR_SEMANTIC,
           rawScore = similarity,
           posting = r_posting record \<rparr>)"

definition openaiMatch :: "'p row \<Rightarrow> 'p match" where
  "openaiMatch record =
     (let similarity = or_num0 (r_SIMILARITY record) (r_similarity record);
          confidence = toConfidence similarity
      in \<lparr> ID = r_ID record,
           wireText = or_str (r_WIRETEXT record) (r_wireText record),
           confidence = confidence,
           matchStrategy = OPENAI_EMBEDDING,
           rawScore = similarity,
           posting = r_posting record \<rparr>)"

text \<open>
  Each strategy runs its query inside its own \<open>try\<close>: an error of the backend is logged and
  the strategy resolves to the empty list.
\<close>

definition fuzzySearch :: "'p db \<Rightarrow> jsstring \<Rightarrow> js_error + 'p match list" where
  "fuzzySearch db lineText =
     (case db FuzzySQL lineText of
        Inl error \<Rightarrow> Inr []
      | Inr results \<Rightarrow> Inr (map fuzzyMatch results))"

definition vectorSearch :: "'p db \<Rightarrow> jsstring \<Rightarrow> js_error + 'p match list" where
  "vectorSearch db lineText =
     (case db VectorSQL lineText of
        Inl error \<Rightarrow> Inr []
      | Inr results \<Rightarrow> Inr (map vectorMatch results))"

definition openaiEmbeddingSearch :: "'p db \<Rightarrow> jsstring \<Rightarrow> js_error + 'p match list" where
  "openaiEmbeddingSearch db lineText =
     (case db OpenAISQL lineText of
        Inl error \<Rightarrow> Inr []
      | Inr results \<Rightarrow> Inr (map openaiMatch results))"

subsection \<open>deduplicateMatches\<close>

text \<open>
  A JavaScript \<open>Map\<close> iterates in insertion order, and \<open>set\<close> on a key that is present
  replaces the value where it stands: an association list.
\<close>

fun map_get :: "('k \<times> 'v) list \<Rightarrow> 'k \<Rightarrow> 'v option" where
  "map_get [] k = None"
| "map_get ((k', v) # kvs) k = (if k' = k then Some v else map_get kvs k)"

fun map_set :: "('k \<times> 'v) list \<Rightarrow> 'k \<Rightarrow> 'v \<Rightarrow> ('k \<times> 'v) list" where
  "map_set [] k v = [(k, v)]"
| "map_set ((k', v') # kvs) k v = (if k' = k then (k, v) # kvs else (k', v') # map_set kvs k v)"

definition map_values :: "('k \<times> 'v) list \<Rightarrow> 'v list" where
  "map_values kvs = map snd kvs"

text \<open>The body of the \<open>for\<close> loop, for one match.\<close>

definition dedup_step :: "(jsstring \<times> 'p match) list \<Rightarrow> 'p match \<Rightarrow> (jsstring \<times> 'p match) list" where
  "dedup_step matchMap m =
     (let id = ID m in
      case map_get matchMap id of
        None \<Rightarrow> map_set matchMap id m
      | Some existing \<Rightarrow>
          if confidence m > confidence existing then map_set matchMap id m else matchMap)"

fun dedup_loop :: "(jsstring \<times> 'p match) list \<Rightarrow> 'p match list \<Rightarrow> (jsstring \<times> 'p match) list" where
  "dedup_loop matchMap [] = matchMap"
| "dedup_loop matchMap (m # matches) = dedup_loop (dedup_step matchMap m) matches"

definition deduplicateMatches :: "'p match list \<Rightarrow> 'p match list" where
  "deduplicateMatches matches = map_values (dedup_loop [] matches)"

subsection \<open>searchLine\<close>

text \<open>\<open>promise.catch(err => [])\<close>\<close>

definition catch_empty :: "js_error + 'a list \<Rightarrow> 'a list" where
  "catch_empty p = (case p of Inl err \<Rightarrow> [] | Inr xs \<Rightarrow> xs)"

text \<open>
  \<open>xs.sort((a, b) => b.confidence - a.confidence)\<close>: \<open>Array.prototype.sort\<close> is stable, and
  so is insertion by key.
\<close>

definition sort_desc :: "'p match list \<Rightarrow> 'p match list" where
  "sort_desc xs = sort_key (\<lambda>m. - confidence m) xs"

definition MIN_CONFIDENCE :: real where
  "MIN_CONFIDENCE = 85"

text \<open>
  \<open>searchLine\<close> over the three strategy methods of the object. \<open>connect\<close> is the outcome
  of \<open>cds.connect.to('db')\<close>, which is awaited outside the \<open>try\<close>: its error is the
  error of the call. Nothing after the strategies have settled can raise.
\<close>

definition searchLineWith ::
  "('p db \<Rightarrow> jsstring \<Rightarrow> js_error + 'p match list) \<Rightarrow>
   ('p db \<Rightarrow> jsstring \<Rightarrow> js_error + 'p match list) \<Rightarrow>
   ('p db \<Rightarrow> jsstring \<Rightarrow> js_error + 'p match list) \<Rightarrow>
   js_error + 'p db \<Rightarrow> jsstring option \<Rightarrow> js_error + 'p match list" where
  "searchLineWith fuzzy vector openai connect lineText =
     (case lineText of
        None \<Rightarrow> Inr []
      | Some text \<Rightarrow>
          if text = [] \<or> length (trim text) < 5 then Inr []
          else (case connect of
                  Inl err \<Rightarrow> Inl err
                | Inr db \<Rightarrow>
                    let fuzzyMatches = catch_empty (fuzzy db text);
                        vectorMatches = catch_empty (vector db text);
                        openaiMatches = catch_empty (openai db text);
                        allMatches = fuzzyMatches @ vectorMatches @ openaiMatches;
                        uniqueMatches = deduplicateMatches allMatches;
                        filteredMatches = filter (\<lambda>m. confidence m \<ge> MIN_CONFIDENCE) uniqueMatches
                    in Inr (sort_desc filteredMatches)))"

definition searchLine :: "js_error + 'p db \<Rightarrow> jsstring option \<Rightarrow> js_error + 'p match list" where
  "searchLine = searchLineWith fuzzySearch vectorSearch openaiEmbeddingSearch"

subsection \<open>The spec's rounding\<close>

text \<open>
  The spec's \<open>round(x, 1 decimal place)\<close>, read as a function of the real \<open>x\<close>: the nearest
  multiple of a tenth, a tie going up.
\<close>

definition spec_round_1dp :: "real \<Rightarrow> real" where
  "spec_round_1dp x = of_int \<lfloor>x * 10 + 1 / 2\<rfloor> / 10"

section \<open>Regular expression pieces\<close>

text \<open>
  The patterns of the source carry the flag \<open>i\<close> and no flag \<open>u\<close>: a code unit of the
  input matches an ASCII letter of the pattern when it is that letter in either case (a code
  unit above 127 is never canonicalised to an ASCII one).
\<close>

definition upper :: "nat \<Rightarrow> nat" where
  "upper c = (if 97 \<le> c \<and> c \<le> 122 then c - 32 else c)"

text \<open>\<open>ci_after p s\<close>: the literal \<open>p\<close> matches at the start of \<open>s\<close>; what follows it.\<close>

fun ci_after :: "jsstring \<Rightarrow> jsstring \<Rightarrow> jsstring option" where
  "ci_after [] s = Some s"
| "ci_after (p # ps) [] = None"
| "ci_after (p # ps) (c # cs) = (if upper c = upper p then ci_after ps cs else None)"

fun ci_starts :: "jsstring \<Rightarrow> jsstring \<Rightarrow> bool" where
  "ci_starts [] s = True"
| "ci_starts (p # ps) [] = False"
| "ci_starts (p # ps) (c # cs) = (upper c = upper p \<and> ci_starts ps cs)"

text \<open>\<open>\s*:\<close> at the start of \<open>s\<close>; what follows the colon. The colon is no white space, so
  the greedy \<open>\s*\<close> has nothing to give back.\<close>

definition ws_colon :: "jsstring \<Rightarrow> jsstring option" where
  "ws_colon s = (case dropWhile is_space s of [] \<Rightarrow> None | c # rest \<Rightarrow> if c = 58 then Some rest else None)"

text \<open>\<open>KEY\s*:\<close> at the start of \<open>s\<close>.\<close>

definition key_colon :: "jsstring \<Rightarrow> jsstring \<Rightarrow> bool" where
  "key_colon key s =
     (case ci_after key s of
        None \<Rightarrow> False
      | Some rest \<Rightarrow> (case ws_colon rest of None \<Rightarrow> False | Some r \<Rightarrow> True))"

text \<open>An unanchored pattern is tried at every position, the leftmost first.\<close>

fun anywhere :: "(jsstring \<Rightarrow> bool) \<Rightarrow> jsstring \<Rightarrow> bool" where
  "anywhere P [] = P []"
| "anywhere P (c # cs) = (if P (c # cs) then True else anywhere P cs)"

section \<open>line-parser.js\<close>

datatype pattern =
    AtStart jsstring  \<comment> \<open>\<open>/^KEY\s*:/i\<close>\<close>
  | Anywhere jsstring  \<comment> \<open>\<open>/KEY\s*:/i\<close>\<close>
  | SendingPat  \<comment> \<open>\<open>/SENDING PERSON|SENDING CO/i\<close>\<close>

fun test :: "pattern \<Rightarrow> jsstring \<Rightarrow> bool" where
  "test (AtStart key) s = key_colon key s"
| "test (Anywhere key) s = anywhere (key_colon key) s"
| "test SendingPat s =
     anywhere (\<lambda>t. if ci_starts (js ''SENDING PERSON'') t then True
                    else ci_starts (js ''SENDING CO'') t) s"

text \<open>\<open>Object.entries\<close> lists the keys in the order they are written.\<close>

definition LINE_PATTERNS :: "(jsstring \<times> pattern) list" where
  "LINE_PATTERNS =
     [(js ''BO'', AtStart (js ''BO'')),
      (js ''BO1'', Anywhere (js ''BO1'')),
      (js ''BO2'', Anywhere (js ''BO2'')),
      (js ''ORDER'', AtStart (js ''ORDER'')),
      (js ''BN'', AtStart (js ''BN'')),
      (js ''FR'', AtStart (js ''FR'')),
      (js ''TO'', AtStart (js ''TO'')),
      (js ''OBI'', AtStart (js ''OBI'')),
      (js ''OB'', AtStart (js ''OB'')),
      (js ''PY'', AtStart (js ''PY'')),
      (js ''BI'', AtStart (js ''BI'')),
      (js ''CR'', AtStart (js ''CR'')),
      (js ''RF'', AtStart (js ''RF'')),
      (js ''SENDING'', SendingPat),
      (js ''ROC'', AtStart (js ''ROC'')),
      (js ''TRID'', AtStart (js ''TRID'')),
      (js ''ENDT'', AtStart (js ''ENDT''))]"

fun first_type :: "(jsstring \<times> pattern) list \<Rightarrow> jsstring \<Rightarrow> jsstring" where
  "first_type [] lineText = js ''OTHER''"
| "first_type ((ty, pattern) # entries) lineText =
     (if test pattern lineText then ty else first_type entries lineText)"

definition identifyLineType :: "jsstring \<Rightarrow> jsstring" where
  "identifyLineType lineText = first_type LINE_PATTERNS lineText"

definition extractBOText :: "jsstring \<Rightarrow> jsstring" where
  "extractBOText lineText = lineText"

text \<open>The \<open>switch\<close> compares the type with each \<open>case\<close> label in turn.\<close>

definition extractSearchText :: "jsstring \<Rightarrow> jsstring option" where
  "extractSearchText lineText =
     (let lineType = identifyLineType lineText in
      if lineType = js ''BO'' \<or> lineType = js ''BO1'' \<or> lineType = js ''BO2''
        then Some (extractBOText lineText)
      else if lineType = js ''ORDER'' then Some lineText
      else if lineType = js ''SENDING PERSON'' then Some lineText
      else if lineType = js ''DETAILS'' then Some lineText
      else if lineType = js ''FR'' \<or> lineType = js ''TO'' \<or> lineType = js ''OBI'' \<or>
              lineType = js ''ROC'' \<or> lineType = js ''TRID'' \<or> lineType = js ''ENDT'' \<or>
              lineType = js ''BI'' \<or> lineType = js ''CR'' \<or> lineType = js ''RF'' \<or>
              lineType = js ''BN'' \<or> lineType = js ''PY'' \<or> lineType = js ''OB''
        then None
      else None)"

subsection \<open>extractMetadata\<close>

definition is_digit :: "nat \<Rightarrow> bool" where
  "is_digit c \<longleftrightarrow> 48 \<le> c \<and> c \<le> 57"

text \<open>The first capture of an unanchored pattern: the leftmost position where it matches.\<close>

fun leftmost :: "(jsstring \<Rightarrow> 'a option) \<Rightarrow> jsstring \<Rightarrow> 'a option" where
  "leftmost f [] = f []"
| "leftmost f (c # cs) = (case f (c # cs) of Some g \<Rightarrow> Some g | None \<Rightarrow> leftmost f cs)"

text \<open>\<open>/TRID:(\d+)/i\<close> at the start of \<open>s\<close>\<close>

definition trid_at :: "jsstring \<Rightarrow> jsstring option" where
  "trid_at s =
     (case ci_after (js ''TRID:'') s of
        None \<Rightarrow> None
      | Some rest \<Rightarrow> (case takeWhile is_digit rest of [] \<Rightarrow> None | d # ds \<Rightarrow> Some (d # ds)))"

text \<open>\<open>/\$?([\d,]+\.\d{2})/\<close> at the start of \<open>s\<close>: no character of the greedy run is a
  full stop, so giving characters back never helps.\<close>

definition amount_at :: "jsstring \<Rightarrow> jsstring option" where
  "amount_at s =
     (let t = (case s of [] \<Rightarrow> [] | c # cs \<Rightarrow> if c = 36 then cs else s);
          run = takeWhile (\<lambda>c. is_digit c \<or> c = 44) t
      in case (run, dropWhile (\<lambda>c. is_digit c \<or> c = 44) t) of
           (r # rs, p # d1 # d2 # rest) \<Rightarrow>
             if p = 46 \<and> is_digit d1 \<and> is_digit d2 then Some (run @ [p, d1, d2]) else None
         | other \<Rightarrow> None)"

text \<open>\<open>/\d{8}/\<close> at the start of \<open>s\<close>\<close>

definition date_at :: "jsstring \<Rightarrow> jsstring option" where
  "date_at s = (if 8 \<le> length (takeWhile is_digit s) then Some (take 8 s) else None)"

record metadata =
  transactionId :: "jsstring option"
  md_amount :: "jsstring option"
  md_date :: "jsstring option"

definition extractMetadata :: "jsstring \<Rightarrow> metadata" where
  "extractMetadata lineText =
     \<lparr> transactionId = leftmost trid_at lineText,
       md_amount = leftmost amount_at lineText,
       md_date = leftmost date_at lineText \<rparr>"

subsection \<open>parsePaymentNotes\<close>

record parsed_line =
  lineNo :: nat
  lineText :: jsstring
  lineType :: jsstring
  searchText :: "jsstring option"
  metadata :: metadata

text \<open>\<open>.replace(/\\n/g, '\n')\<close>: a backslash followed by \<open>n\<close> becomes a line feed.\<close>

fun unescape_newlines :: "jsstring \<Rightarrow> jsstring" where
  "unescape_newlines (a # b # cs) =
     (if a = 92 \<and> b = 110 then 10 # unescape_newlines cs else a # unescape_newlines (b # cs))"
| "unescape_newlines cs = cs"

text \<open>\<open>.replace(/\r\n/g, '\n')\<close>\<close>

fun crlf_to_lf :: "jsstring \<Rightarrow> jsstring" where
  "crlf_to_lf (a # b # cs) =
     (if a = 13 \<and> b = 10 then 10 # crlf_to_lf cs else a # crlf_to_lf (b # cs))"
| "crlf_to_lf cs = cs"

text \<open>\<open>.replace(/\r/g, '\n')\<close>\<close>

definition cr_to_lf :: "jsstring \<Rightarrow> jsstring" where
  "cr_to_lf s = map (\<lambda>c. if c = 13 then 10 else c) s"

text \<open>\<open>.split('\n')\<close>\<close>

fun split_lf :: "jsstring \<Rightarrow> jsstring list" where
  "split_lf [] = [[]]"
| "split_lf (c # cs) =
     (if c = 10 then [] # split_lf cs
      else (case split_lf cs of [] \<Rightarrow> [[c]] | l # ls \<Rightarrow> (c # l) # ls))"

definition mergeWrappedLines :: "jsstring list \<Rightarrow> jsstring list" where
  "mergeWrappedLines rawLines = rawLines"

definition parsePaymentNotes :: "jsstring option \<Rightarrow> parsed_line list" where
  "parsePaymentNotes paymentNotesRaw =
     (case paymentNotesRaw of
        None \<Rightarrow> []
      | Some raw \<Rightarrow>
          if raw = [] then []
          else
            let normalized = cr_to_lf (crlf_to_lf (unescape_newlines raw));
                rawLines = filter (\<lambda>l. length l > 0) (map trim (split_lf normalized));
                mergedLines = mergeWrappedLines rawLines
            in map (\<lambda>(index, l).
                     \<lparr> lineNo = index + 1,
                       lineText = l,
                       lineType = identifyLineType l,
                       searchText = extractSearchText l,
                       metadata = extractMetadata l \<rparr>)
                 (enumerate 0 mergedLines))"

subsection \<open>shouldMatchLine\<close>

definition skipTypes :: "jsstring list" where
  "skipTypes = [js ''TRID'', js ''ENDT'', js ''FR'', js ''TO'', js ''BI'', js ''CR'', js ''RF'']"

definition shouldMatchLine :: "parsed_line \<Rightarrow> bool" where
  "shouldMatchLine parsedLine =
     (case searchText parsedLine of
        None \<Rightarrow> False
      | Some s \<Rightarrow>
          if s = [] then False
          else if lineType parsedLine \<in> set skipTypes then False
          else if length s < 5 then False
          else True)"

section \<open>More of the string library\<close>

text \<open>
  \<open>String.prototype.toLowerCase\<close> follows the case tables of Unicode, which the model does
  not hold: a function of the source that calls it takes it as the parameter \<open>lc\<close>. On a
  text of ASCII code units it is \<open>ascii_lower\<close>, which lowers the letters A to Z.
\<close>

definition lower :: "nat \<Rightarrow> nat" where
  "lower c = (if 65 \<le> c \<and> c \<le> 90 then c + 32 else c)"

definition ascii_lower :: "jsstring \<Rightarrow> jsstring" where
  "ascii_lower s = map lower s"

fun starts_with :: "jsstring \<Rightarrow> jsstring \<Rightarrow> bool" where
  "starts_with [] s = True"
| "starts_with (p # ps) [] = False"
| "starts_with (p # ps) (c # cs) = (p = c \<and> starts_with ps cs)"

text \<open>\<open>hay.includes(needle)\<close>\<close>

fun str_includes :: "jsstring \<Rightarrow> jsstring \<Rightarrow> bool" where
  "str_includes [] needle = (needle = [])"
| "str_includes (c # cs) needle = (if starts_with needle (c # cs) then True else str_includes cs needle)"

text \<open>\<open>(s || '')\<close>\<close>

definition or_empty :: "jsstring option \<Rightarrow> jsstring" where
  "or_empty s = (case s of None \<Rightarrow> [] | Some t \<Rightarrow> t)"

text \<open>
  A column that holds JSON text, seen through \<open>JSON.parse(field || '[]')\<close>: an absent or empty
  text parses as the empty array, a malformed one makes \<open>JSON.parse\<close> raise.
\<close>

datatype 'a json_column = Absent | Malformed | Array "'a list"

section \<open>email-matcher.js\<close>

record email =
  subject :: "jsstring option"
  bodyPreview :: "jsstring option"

record cached_email = email +
  fromName :: "jsstring option"
  fromAddress :: "jsstring option"
  extractedAmounts :: "real json_column"
  extractedCompanies :: "jsstring json_column"
  similarity :: "real option"

text \<open>The test of the \<open>try\<close> block on \<open>extractedCompanies\<close>; a parse error is skipped.\<close>

definition companies_match :: "(jsstring \<Rightarrow> jsstring) \<Rightarrow> jsstring json_column \<Rightarrow> jsstring \<Rightarrow> bool" where
  "companies_match lc col companyLower =
     (case col of
        Absent \<Rightarrow> False
      | Malformed \<Rightarrow> False
      | Array companies \<Rightarrow> list_ex (\<lambda>c. str_includes (lc c) companyLower) companies)"

text \<open>
  The test of the \<open>try\<close> block on \<open>extractedAmounts\<close>, entered when \<open>amount\<close> is truthy. The
  literal \<open>0.01\<close> is the double nearest to a hundredth.
\<close>

definition amounts_match :: "real json_column \<Rightarrow> real \<Rightarrow> bool" where
  "amounts_match col amount =
     (case col of
        Absent \<Rightarrow> False
      | Malformed \<Rightarrow> False
      | Array amounts \<Rightarrow>
          let tolerance = fl (amount * fl (1 / 100))
          in list_ex (\<lambda>extracted. \<bar>fl (extracted - amount)\<bar> \<le> tolerance) amounts)"

text \<open>
  \<open>calculateRelevanceScore\<close>: \<open>score\<close> starts at 0 and each \<open>score += ...\<close> is a double
  addition. The test on \<open>amount\<close> is \<open>if (amount)\<close>: an amount that is missing or 0 is falsy.
  The fourth parameter of the source, the search embedding, is not read.
\<close>

definition calculateRelevanceScore ::
  "(jsstring \<Rightarrow> jsstring) \<Rightarrow> cached_email \<Rightarrow> jsstring \<Rightarrow> real option \<Rightarrow> real" where
  "calculateRelevanceScore lc email companyName amount =
     (let sim = (case similarity email of None \<Rightarrow> 0 | Some x \<Rightarrow> x);
          score0 = fl (0 + fl (sim * 50));
          subj = lc (or_empty (subject email));
          preview = lc (or_empty (bodyPreview email));
          companyLower = lc companyName;
          score1 = (if str_includes subj companyLower then fl (score0 + 20) else score0);
          score2 = (if str_includes preview companyLower then fl (score1 + 10) else score1);
          score3 = (if companies_match lc (extractedCompanies email) companyLower
                    then fl (score2 + 15) else score2);
          score4 = (case amount of
                      None \<Rightarrow> score3
                    | Some a \<Rightarrow>
                        if a \<noteq> 0
                        then (if amounts_match (extractedAmounts email) a then fl (score3 + 20)
                              else score3)
                        else score3);
          fromN = lc (or_empty (fromName email));
          fromA = lc (or_empty (fromAddress email));
          score5 = (if str_includes fromN companyLower \<or> str_includes fromA companyLower
                    then fl (score4 + 10) else score4)
      in min score5 100)"

text \<open>
  The database behind \<open>searchCachedEmails\<close>: the query that embeds the search text (the
  embedding of its first row, if there is one) and the similarity query over a window of
  dates. A date is a day number; \<open>None\<close> is an invalid \<open>Date\<close>, on which \<open>toISOString\<close> raises.
\<close>

record 'v mail_db =
  embedding_of :: "jsstring \<Rightarrow> js_error + 'v option"
  similar_within :: "'v \<Rightarrow> int \<Rightarrow> int \<Rightarrow> js_error + cached_email list"

record scored_email =
  scored :: cached_email
  relevanceScore :: real

definition by_relevance :: "scored_email list \<Rightarrow> scored_email list" where
  "by_relevance xs = sort_key (\<lambda>e. - relevanceScore e) xs"

text \<open>
  \<open>num_str\<close> is the conversion of a number to text in a template string. Every error
  inside the \<open>try\<close> is logged and thrown again; the first test stands before the \<open>try\<close>.
\<close>

definition searchCachedEmails ::
  "(jsstring \<Rightarrow> jsstring) \<Rightarrow> (real \<Rightarrow> jsstring) \<Rightarrow> 'v mail_db \<Rightarrow> jsstring option \<Rightarrow> real option \<Rightarrow> int option \<Rightarrow>
   int option \<Rightarrow> int option \<Rightarrow> js_error + scored_email list" where
  "searchCachedEmails lc num_str db companyName amount valueDate daysBefore daysAfter =
     (case companyName of
        None \<Rightarrow> Inl (Error (js ''Company name is required for email search''))
      | Some company \<Rightarrow>
          if company = [] then Inl (Error (js ''Company name is required for email search''))
          else
            (case valueDate of
               None \<Rightarrow> Inl (Error (js ''Invalid time value''))
             | Some day \<Rightarrow>
                 let startDate = day - (case daysBefore of None \<Rightarrow> 7 | Some n \<Rightarrow> n);
                     endDate = day + (case daysAfter of None \<Rightarrow> 7 | Some n \<Rightarrow> n);
                     searchText = company @ js '' payment '' @
                       (case amount of None \<Rightarrow> js ''undefined'' | Some a \<Rightarrow> num_str a)
                 in case embedding_of db searchText of
                      Inl err \<Rightarrow> Inl err
                    | Inr None \<Rightarrow> Inl (Error (js ''Failed to generate search embedding''))
                    | Inr (Some searchEmbedding) \<Rightarrow>
                        (case similar_within db searchEmbedding startDate endDate of
                           Inl err \<Rightarrow> Inl err
                         | Inr results \<Rightarrow>
                             Inr (take 10 (by_relevance
                               (map (\<lambda>e. \<lparr> scored = e,
                                           relevanceScore = calculateRelevanceScore lc e company amount \<rparr>)
                                  results))))))"

section \<open>email-search.js\<close>

text \<open>A message of the mailbox; \<open>from_name\<close> is \<open>from?.emailAddress?.name\<close>.\<close>

record graph_email = email +
  from_name :: "jsstring option"
  from_address :: "jsstring option"
  hasAttachments :: "bool option"

definition is_word :: "nat \<Rightarrow> bool" where
  "is_word c \<longleftrightarrow> is_digit c \<or> (65 \<le> c \<and> c \<le> 90) \<or> (97 \<le> c \<and> c \<le> 122) \<or> c = 95"

text \<open>
  \<open>.replace(/\B(?=(\d{3})+(?!\d))/g, ',')\<close>: a comma goes in front of a position that
  follows a word character and starts a run of digits whose length is a positive multiple
  of three. \<open>prev\<close> is the code unit before the position.
\<close>

fun add_commas :: "nat option \<Rightarrow> jsstring \<Rightarrow> jsstring" where
  "add_commas prev [] = []"
| "add_commas prev (c # cs) =
     (let run = length (takeWhile is_digit (c # cs));
          after_word = (case prev of None \<Rightarrow> False | Some p \<Rightarrow> is_word p)
      in (if after_word \<and> 3 \<le> run \<and> run mod 3 = 0 then [44] else []) @ c # add_commas (Some c) cs)"

definition amount_bonus :: "(real \<Rightarrow> jsstring) \<Rightarrow> jsstring \<Rightarrow> jsstring \<Rightarrow> real \<Rightarrow> real" where
  "amount_bonus num_str subj preview amount =
     (let amountStr = add_commas None (num_str amount);
          amountPlain = num_str amount
      in (if str_includes subj amountStr \<or> str_includes subj amountPlain then 30 else 0)
       + (if str_includes preview amountStr \<or> str_includes preview amountPlain then 20 else 0))"

text \<open>
  \<open>calculateRelevance\<close>: the sum of the bonuses is returned as it stands. The bonuses are
  small integers, whose sums are exact in double arithmetic.
\<close>

definition calculateRelevance ::
  "(jsstring \<Rightarrow> jsstring) \<Rightarrow> (real \<Rightarrow> jsstring) \<Rightarrow> graph_email \<Rightarrow> jsstring \<Rightarrow> real option \<Rightarrow> real" where
  "calculateRelevance lc num_str email companyName amount =
     (let subj = lc (or_empty (subject email));
          preview = lc (or_empty (bodyPreview email));
          companyLower = lc companyName;
          fromN = lc (or_empty (from_name email));
          fromA = lc (or_empty (from_address email))
      in (if str_includes subj companyLower then 50 else 0)
       + (if str_includes preview companyLower then 30 else 0)
       + (case amount of
            None \<Rightarrow> 0
          | Some a \<Rightarrow> if a \<noteq> 0 then amount_bonus num_str subj preview a else 0)
       + (if hasAttachments email = Some True then 10 else 0)
       + (if str_includes fromN companyLower \<or> str_includes fromA companyLower then 20 else 0))"

record inbox_result =
  message :: graph_email
  score :: real

definition by_score :: "inbox_result list \<Rightarrow> inbox_result list" where
  "by_score xs = sort_key (\<lambda>r. - score r) xs"

text \<open>
  \<open>searchInbox\<close>; \<open>mailbox\<close> is the request to the mailbox API for a search query: the
  messages of the response, or the error raised. The \<open>catch\<close> block returns the empty list
  for an error whose message mentions a missing destination and throws any other again.
\<close>

definition searchInbox ::
  "(jsstring \<Rightarrow> jsstring) \<Rightarrow> (real \<Rightarrow> jsstring) \<Rightarrow> (jsstring \<Rightarrow> js_error + graph_email list) \<Rightarrow> jsstring option \<Rightarrow>
   real option \<Rightarrow> int option \<Rightarrow> int option \<Rightarrow> int option \<Rightarrow> js_error + inbox_result list" where
  "searchInbox lc num_str mailbox companyName amount valueDate daysBefore daysAfter =
     (case companyName of
        None \<Rightarrow> Inl (Error (js ''Company name is required for email search''))
      | Some company \<Rightarrow>
          if company = [] then Inl (Error (js ''Company name is required for email search''))
          else
            let attempt =
              (case valueDate of
                 None \<Rightarrow> Inl (Error (js ''Invalid time value''))
               | Some day \<Rightarrow>
                   let searchQuery = [34] @ company @ [34] @ js '' AND subject:'' @ [34]
                         @ js ''SAP HACKATHON'' @ [34]
                   in case mailbox searchQuery of
                        Inl err \<Rightarrow> Inl err
                      | Inr emails \<Rightarrow>
                          Inr (by_score
                            (map (\<lambda>e. \<lparr> message = e,
                                        score = calculateRelevance lc num_str e company amount \<rparr>)
                               emails)))
            in case attempt of
                 Inr results \<Rightarrow> Inr results
               | Inl (Error msg) \<Rightarrow>
                   if str_includes msg (js ''not found'') \<or> str_includes msg (js ''destination'')
                   then Inr [] else Inl (Error msg))"

section \<open>email-summarizer.js\<close>

text \<open>The code units that \<open>.\<close> does not match.\<close>

definition is_line_terminator :: "nat \<Rightarrow> bool" where
  "is_line_terminator c \<longleftrightarrow> c = 10 \<or> c = 13 \<or> c = 8232 \<or> c = 8233"

text \<open>\<open>(.+)\<close> at the start of \<open>s\<close>, with nothing required after it: all of the line.\<close>

definition dot_plus :: "jsstring \<Rightarrow> jsstring option" where
  "dot_plus s =
     (case takeWhile (\<lambda>c. \<not> is_line_terminator c) s of [] \<Rightarrow> None | c # cs \<Rightarrow> Some (c # cs))"

text \<open>
  \<open>\s*(.+)\<close> at the start of \<open>s\<close>: the greedy \<open>\s*\<close> first takes the \<open>n\<close> white space units
  there are and gives them back one at a time while the rest fails.
\<close>

fun ws_dot_plus :: "nat \<Rightarrow> jsstring \<Rightarrow> jsstring option" where
  "ws_dot_plus 0 s = dot_plus s"
| "ws_dot_plus (Suc n) s =
     (case dot_plus (drop (Suc n) s) of Some g \<Rightarrow> Some g | None \<Rightarrow> ws_dot_plus n s)"

text \<open>\<open>/\*\*Label\*\*:\s*(.+)/i\<close> at the start of \<open>s\<close>: the first capture.\<close>

definition label_at :: "jsstring \<Rightarrow> jsstring \<Rightarrow> jsstring option" where
  "label_at label s =
     (case ci_after (js ''**'' @ label @ js ''**:'') s of
        None \<Rightarrow> None
      | Some rest \<Rightarrow> ws_dot_plus (length (takeWhile is_space rest)) rest)"

text \<open>\<open>summary.match(/\*\*Label\*\*:\s*(.+)/i)\<close>: the first capture of the leftmost match.\<close>

definition label_match :: "jsstring \<Rightarrow> jsstring \<Rightarrow> jsstring option" where
  "label_match label summary = leftmost (label_at label) summary"

definition cleanValue :: "(jsstring \<Rightarrow> jsstring) \<Rightarrow> jsstring option \<Rightarrow> jsstring option" where
  "cleanValue lc v =
     (case v of
        None \<Rightarrow> None
      | Some val \<Rightarrow>
          if val = [] then None
          else let trimmed = trim val
               in if lc trimmed = js ''not found'' \<or> trimmed = js ''-'' then None
                  else Some trimmed)"

record accounting_fields =
  costCenter :: "jsstring option"
  companyCode :: "jsstring option"
  glAccount :: "jsstring option"
  invoice :: "jsstring option"
  summary_notes :: "jsstring option"

text \<open>
  \<open>parseActionItems\<close>. On a string no step of the \<open>try\<close> block raises, so its \<open>catch\<close>
  block, which would put the first 200 units of the summary into \<open>notes\<close> (here \<open>summary_notes\<close>), is not entered.
\<close>

definition parseActionItems :: "(jsstring \<Rightarrow> jsstring) \<Rightarrow> jsstring option \<Rightarrow> accounting_fields" where
  "parseActionItems lc summary =
     (case summary of
        None \<Rightarrow> \<lparr> costCenter = None, companyCode = None, glAccount = None, invoice = None,
                  summary_notes = None \<rparr>
      | Some s \<Rightarrow>
          if s = [] then \<lparr> costCenter = None, companyCode = None, glAccount = None,
                           invoice = None, summary_notes = None \<rparr>
          else
            let costCenterMatch = label_match (js ''Cost Center'') s;
                companyCodeMatch = label_match (js ''Company Code'') s;
                glAccountMatch = label_match (js ''GL Account'') s;
                invoiceMatch = label_match (js ''Invoice/Reference'') s;
                notesMatch = label_match (js ''Notes'') s
            in \<lparr> costCenter = cleanValue lc costCenterMatch,
                 companyCode = cleanValue lc companyCodeMatch,
                 glAccount = cleanValue lc glAccountMatch,
                 invoice = cleanValue lc invoiceMatch,
                 summary_notes = cleanValue lc notesMatch \<rparr>)"

section \<open>company-extractor.js\<close>

text \<open>\<open>\s*BO[23]\s*:\<close> at the start of \<open>s\<close>; what follows the colon.\<close>

definition bo23_colon :: "jsstring \<Rightarrow> jsstring option" where
  "bo23_colon s =
     (case ci_after (js ''BO'') (dropWhile is_space s) of
        None \<Rightarrow> None
      | Some [] \<Rightarrow> None
      | Some (d # rest) \<Rightarrow> if d = 50 \<or> d = 51 then ws_colon rest else None)"

text \<open>\<open>(?:\s*BO[23]\s*:|$)\<close> at the start of \<open>s\<close>; there is no flag \<open>m\<close>, so \<open>$\<close> is the end of
  the string.\<close>

definition group_end :: "jsstring \<Rightarrow> bool" where
  "group_end s = (case bo23_colon s of Some r \<Rightarrow> True | None \<Rightarrow> s = [])"

text \<open>The lazy \<open>(.+?)\<close> followed by \<open>(?:\s*BO[23]\s*:|$)\<close>: the shortest capture that works.\<close>

fun lazy_dots :: "jsstring \<Rightarrow> jsstring option" where
  "lazy_dots [] = None"
| "lazy_dots (c # cs) =
     (if is_line_terminator c then None
      else if group_end cs then Some [c]
      else (case lazy_dots cs of None \<Rightarrow> None | Some g \<Rightarrow> Some (c # g)))"

text \<open>\<open>\s*(.+?)(?:\s*BO[23]\s*:|$)\<close>, the greedy \<open>\s*\<close> giving back as in \<open>ws_dot_plus\<close>.\<close>

fun ws_lazy_dots :: "nat \<Rightarrow> jsstring \<Rightarrow> jsstring option" where
  "ws_lazy_dots 0 s = lazy_dots s"
| "ws_lazy_dots (Suc n) s =
     (case lazy_dots (drop (Suc n) s) of Some g \<Rightarrow> Some g | None \<Rightarrow> ws_lazy_dots n s)"

text \<open>\<open>/BO1\s*:\s*(.+?)(?:\s*BO[23]\s*:|$)/i\<close> at the start of \<open>s\<close>: the first capture.\<close>

definition bo1_at :: "jsstring \<Rightarrow> jsstring option" where
  "bo1_at s =
     (case ci_after (js ''BO1'') s of
        None \<Rightarrow> None
      | Some r \<Rightarrow>
          (case ws_colon r of
             None \<Rightarrow> None
           | Some rest \<Rightarrow> ws_lazy_dots (length (takeWhile is_space rest)) rest))"

definition bo1Match :: "jsstring \<Rightarrow> jsstring option" where
  "bo1Match s = leftmost bo1_at s"

text \<open>\<open>/\s*BO[23]\s*:.*$/i\<close> at the start of \<open>s\<close>: after the marker no line terminator may
  come before the end.\<close>

definition bo23_tail :: "jsstring \<Rightarrow> bool" where
  "bo23_tail s =
     (case bo23_colon s of
        None \<Rightarrow> False
      | Some r \<Rightarrow> list_all (\<lambda>c. \<not> is_line_terminator c) r)"

text \<open>\<open>.replace(/\s*BO[23]\s*:.*$/i, '')\<close>: cut at the leftmost match.\<close>

fun strip_bo23_tail :: "jsstring \<Rightarrow> jsstring" where
  "strip_bo23_tail [] = []"
| "strip_bo23_tail (c # cs) = (if bo23_tail (c # cs) then [] else c # strip_bo23_tail cs)"

text \<open>\<open>.replace(/^BO[0-9]+\s*:\s*/i, '')\<close>\<close>

definition strip_bo_prefix :: "jsstring \<Rightarrow> jsstring" where
  "strip_bo_prefix s =
     (case ci_after (js ''BO'') s of
        None \<Rightarrow> s
      | Some r \<Rightarrow>
          (case takeWhile is_digit r of
             [] \<Rightarrow> s
           | d # ds \<Rightarrow>
               (case ws_colon (dropWhile is_digit r) of
                  None \<Rightarrow> s
                | Some rest \<Rightarrow> dropWhile is_space rest)))"

text \<open>The captured text, trimmed, defensively cleaned and trimmed again.\<close>

definition clean_bo1 :: "jsstring \<Rightarrow> jsstring" where
  "clean_bo1 g = trim (strip_bo_prefix (strip_bo23_tail (trim g)))"

datatype source = BO1 | CHATGPT

record extraction =
  companyName :: jsstring
  source :: source
  confidence_pct :: nat

record bo1_extraction = extraction +
  amount :: "real option"
  fullLine :: jsstring

record llm_extraction = extraction +
  rawPaymentNotes :: jsstring

text \<open>
  \<open>extractCompanyName\<close> is exported and looks at whatever it is given. A property of an
  entry of the array, as the function looks at it, is a string or something else:
  \<open>Undefined\<close> stands for a value that is falsy and no string (\<open>undefined\<close>, \<open>null\<close>, \<open>0\<close>,
  \<open>false\<close>), \<open>Other\<close> for a truthy value that is no string and has no method \<open>match\<close> (a
  number, \<open>true\<close>, a plain object). An entry is \<open>null\<close> or \<open>undefined\<close>, on which reading a
  property raises a \<open>TypeError\<close>, or a value with its properties \<open>lineType\<close> and \<open>lineText\<close>.
\<close>

datatype js_val = Undefined | Str jsstring | Other

datatype js_line = Nullish | Object js_val js_val

text \<open>A line as \<open>parsePaymentNotes\<close> builds it.\<close>

definition line_value :: "parsed_line \<Rightarrow> js_line" where
  "line_value l = Object (Str (lineType l)) (Str (lineText l))"

text \<open>
  \<open>parsedLines.find(line => line.lineType === 'BO')\<close>: the first entry that passes, \<open>None\<close>
  for \<open>undefined\<close> when there is none; the callback raises on a \<open>null\<close> entry that it reaches.
\<close>

fun find_bo :: "js_line list \<Rightarrow> js_error + js_line option" where
  "find_bo [] = Inr None"
| "find_bo (Nullish # ls) =
     Inl (Error (js ''Cannot read properties of null (reading '' @ [39] @ js ''lineType'' @ [39] @ js '')''))"
| "find_bo (Object ty tx # ls) =
     (if ty = Str (js ''BO'') then Inr (Some (Object ty tx)) else find_bo ls)"

text \<open>
  The \<open>try\<close> block of \<open>extractCompanyName\<close>: the error raised in it, or what the function
  returns when nothing is raised. Leaving the block without a \<open>return\<close> leads to the
  \<open>return null\<close> that ends the function, the other strategies being commented out.
\<close>

definition extractCompanyName_try :: "js_line list \<Rightarrow> real option \<Rightarrow> js_error + bo1_extraction option" where
  "extractCompanyName_try ls amt =
     (case find_bo ls of
        Inl err \<Rightarrow> Inl err
      | Inr None \<Rightarrow> Inr None
      | Inr (Some Nullish) \<Rightarrow> Inr None
      | Inr (Some (Object ty Undefined)) \<Rightarrow> Inr None
      | Inr (Some (Object ty Other)) \<Rightarrow> Inl (Error (js ''boLine.lineText.match is not a function''))
      | Inr (Some (Object ty (Str s))) \<Rightarrow>
          if s = [] then Inr None
          else
            (case bo1Match s of
               None \<Rightarrow> Inr None
             | Some g \<Rightarrow>
                 let name = clean_bo1 g
                 in if name = [] then Inr None
                    else if length name < 2 then Inr None
                    else Inr (Some \<lparr> companyName = name, source = BO1, confidence_pct = 95,
                                      amount = amt, fullLine = s \<rparr>)))"

text \<open>
  \<open>extractCompanyName\<close>: the guard, then the \<open>try\<close> block, whose \<open>catch\<close> logs the message of
  the error and returns \<open>null\<close>. \<open>Inl\<close> would be an error that leaves the function.
\<close>

definition extractCompanyName :: "js_line list option \<Rightarrow> real option \<Rightarrow> js_error + bo1_extraction option" where
  "extractCompanyName parsedLines amt =
     (case parsedLines of
        None \<Rightarrow> Inr None
      | Some ls \<Rightarrow>
          if length ls = 0 then Inr None
          else
            (case extractCompanyName_try ls amt of
               Inl error \<Rightarrow> Inr None
             | Inr res \<Rightarrow> Inr res))"

subsection \<open>The pattern rule in the words of the specification\<close>

text \<open>
  \<open>s\<close> begins with a \<open>BO2:\<close> or \<open>BO3:\<close> marker: optional white space, the letters \<open>BO\<close> in
  either case, the digit 2 or 3, optional white space and a colon.
\<close>

definition spec_bo_marker :: "jsstring \<Rightarrow> bool" where
  "spec_bo_marker s \<longleftrightarrow>
     (\<exists>w mk d w' rest. s = w @ mk @ d # w' @ 58 # rest \<and> list_all is_space w \<and>
        map upper mk = js ''BO'' \<and> (d = 50 \<or> d = 51) \<and> list_all is_space w')"

text \<open>
  The substring \<open>g\<close> of the line \<open>s\<close> between a \<open>BO1:\<close> marker, which follows \<open>p\<close>, and the
  next \<open>BO2:\<close>/\<open>BO3:\<close> marker or the end of the line, which begins \<open>post\<close>. The \<open>BO1:\<close>
  marker is \<open>BO1\<close> in either case, optional white space and a colon; white space may follow
  it. \<open>g\<close> is not empty, stays on one line, and no \<open>BO2:\<close>/\<open>BO3:\<close> marker begins inside it.
\<close>

definition spec_bo1_segment :: "jsstring \<Rightarrow> jsstring \<Rightarrow> jsstring \<Rightarrow> jsstring \<Rightarrow> bool" where
  "spec_bo1_segment s p g post \<longleftrightarrow>
     (\<exists>mk w1 w2. s = p @ mk @ w1 @ 58 # w2 @ g @ post \<and>
        map upper mk = js ''BO1'' \<and> list_all is_space w1 \<and> list_all is_space w2) \<and>
     g \<noteq> [] \<and> list_all (\<lambda>c. \<not> is_line_terminator c) g \<and>
     (post = [] \<or> spec_bo_marker post) \<and>
     (\<forall>k. 0 < k \<and> k < length g \<longrightarrow> \<not> spec_bo_marker (drop k g @ post))"

text \<open>
  The marker that follows \<open>p\<close> is the first of the line: \<open>BO1\<close>, in either case, begins at no
  position of \<open>s\<close> inside \<open>p\<close>.
\<close>

definition spec_first_bo1 :: "jsstring \<Rightarrow> jsstring \<Rightarrow> bool" where
  "spec_first_bo1 s p \<longleftrightarrow> (\<forall>k<length p. map upper (take 3 (drop k s)) \<noteq> js ''BO1'')"

text \<open>
  A residual marker fragment: \<open>t\<close> is \<open>BO\<close> in either case, one digit or more, optional white
  space, a colon, and then \<open>rest\<close>.
\<close>

definition spec_bo_prefix :: "jsstring \<Rightarrow> jsstring \<Rightarrow> bool" where
  "spec_bo_prefix t rest \<longleftrightarrow>
     (\<exists>mk ds w. t = mk @ ds @ w @ 58 # rest \<and> map upper mk = js ''BO'' \<and> ds \<noteq> [] \<and>
        list_all is_digit ds \<and> list_all is_space w)"

text \<open>
  The cleaned string \<open>n\<close> of a trimmed substring \<open>t\<close>: what follows a residual marker fragment,
  trimmed, or \<open>t\<close> itself when it begins with none.
\<close>

definition spec_cleaned :: "jsstring \<Rightarrow> jsstring \<Rightarrow> bool" where
  "spec_cleaned t n \<longleftrightarrow>
     (\<exists>rest. spec_bo_prefix t rest \<and> n = trim rest) \<or> ((\<forall>rest. \<not> spec_bo_prefix t rest) \<and> n = t)"

text \<open>
  The first buyer-order-primary line: entry \<open>i\<close> has the type \<open>BO\<close> and the text \<open>s\<close>, and the
  entries before it are values of another type.
\<close>

definition spec_first_bo :: "js_line list \<Rightarrow> nat \<Rightarrow> jsstring \<Rightarrow> bool" where
  "spec_first_bo lines i s \<longleftrightarrow>
     i < length lines \<and> lines ! i = Object (Str (js ''BO'')) (Str s) \<and>
     (\<forall>j<i. \<exists>ty tx. lines ! j = Object ty tx \<and> ty \<noteq> Str (js ''BO''))"

definition unlines :: "jsstring list \<Rightarrow> jsstring" where
  "unlines ls = concat (map (\<lambda>l. l @ [10]) ls)"

definition prompt_for :: "jsstring \<Rightarrow> jsstring" where
  "prompt_for paymentNotesRaw =
     unlines [js ''Analyze the following bank payment notes and extract the payer/company name.'',
              [], js ''Payment Notes:'']
     @ paymentNotesRaw @ [10]
     @ unlines [[], js ''Instructions:'',
         js ''- The payer name is generally in the BO1 field, but it could be in any field (BO2, BO3, OB1, BN, etc.)'',
         js ''- Return ONLY the clean company/payer name'',
         js ''- Remove business suffixes like LLC, Inc, INC, Corp, Ltd, Co, Corporation, Incorporated, Limited'',
         js ''- Remove any address information, city, state, zip codes'',
         js ''- Do not include any field labels (like '' @ [34] @ js ''BO1:'' @ [34] @ js '', ''
           @ [34] @ js ''BO2:'' @ [34] @ js '', etc.)'',
         js ''- Return just the core business name for easy email searching'',
         js ''- If no clear payer name is found, return the text '' @ [34] @ js ''NONE'' @ [34],
         [], js ''Example:'',
         js ''Input: '' @ [34] @ js ''BO1:ACME CORPORATION LLC BO2:123 MAIN ST'' @ [34],
         js ''Output: ACME CORPORATION'', []]
     @ js ''Extract the payer name:''"

text \<open>
  \<open>extractCompanyNameWithChatGPT\<close>; \<open>llm\<close> is the call of the model with a prompt: the text
  of its answer, or the error raised, which the \<open>catch\<close> block turns into \<open>null\<close>.
\<close>

definition extractCompanyNameWithChatGPT ::
  "(jsstring \<Rightarrow> js_error + jsstring) \<Rightarrow> jsstring option \<Rightarrow> llm_extraction option" where
  "extractCompanyNameWithChatGPT llm paymentNotesRaw =
     (case paymentNotesRaw of
        None \<Rightarrow> None
      | Some raw \<Rightarrow>
          if raw = [] then None
          else
            (case llm (prompt_for raw) of
               Inl err \<Rightarrow> None
             | Inr extractedText \<Rightarrow>
                 let name = trim extractedText
                 in if name = [] \<or> name = js ''NONE'' \<or> length name < 2 then None
                    else Some \<lparr> companyName = name, source = CHATGPT, confidence_pct = 90,
                                rawPaymentNotes = raw \<rparr>))"

section \<open>Example data\<close>

text \<open>Concrete rows, notes, messages and summaries on which the properties are exercised.\<close>

definition example_row :: "string \<Rightarrow> real \<Rightarrow> unit row" where
  "example_row i s =
     \<lparr> r_ID = js i, r_WIRETEXT = None, r_wireText = Some (js ''ACME LLC WIRE''),
       r_SCORE = None, r_score = Some s, r_SIMILARITY = None, r_similarity = Some s,
       r_posting = () \<rparr>"

definition example_db :: "unit db" where
  "example_db q t =
     (case q of
        FuzzySQL \<Rightarrow> Inr [example_row ''h1'' (439 / 512), example_row ''h2'' (1 / 2)]
      | VectorSQL \<Rightarrow> Inl (Error (js ''timeout''))
      | OpenAISQL \<Rightarrow> Inr [example_row ''h1'' 1, example_row ''h3'' (183 / 256)])"

definition scenario_db :: "unit db" where
  "scenario_db q t =
     (case q of
        FuzzySQL \<Rightarrow> Inr [example_row ''h1'' (439 / 512)]
      | VectorSQL \<Rightarrow> Inr [example_row ''h1'' (73 / 256)]
      | OpenAISQL \<Rightarrow> Inr [example_row ''h1'' 1])"

text \<open>A database where the fuzzy query fails and the other two return rows.\<close>

definition failing_db :: "unit db" where
  "failing_db q t =
     (case q of
        FuzzySQL \<Rightarrow> Inl (Error (js ''timeout''))
      | VectorSQL \<Rightarrow> Inr [example_row ''h1'' (439 / 512), example_row ''h2'' (1 / 2)]
      | OpenAISQL \<Rightarrow> Inr [example_row ''h3'' (183 / 256), example_row ''h1'' 1])"

text \<open>The double that is written \<open>0.7128571428571429\<close>.\<close>

definition boundary_score :: real where
  "boundary_score = 3210423162939825 / 4503599627370496"

definition example_line :: jsstring where
  "example_line = js ''BO:219062889 BO1:ACME LLC''"

definition scenario_notes :: jsstring where
  "scenario_notes = js ''BO:219062889 BO1:ACME LLC BO2:123 MAIN ST\<newline>TRID:998877\<newline>''"

definition example_message :: graph_email where
  "example_message =
     \<lparr> subject = Some (js ''ACME invoice 4711''),
       bodyPreview = Some (js ''Payment advice from Acme''),
       from_name = Some (js ''ACME Billing''),
       from_address = Some (js ''billing@acme.example''),
       hasAttachments = Some True \<rparr>"

definition example_cached :: cached_email where
  "example_cached =
     \<lparr> subject = Some (js ''Weekly newsletter''),
       bodyPreview = Some (js ''Nothing about payments''),
       fromName = Some (js ''News''),
       fromAddress = Some (js ''news@example.org''),
       extractedAmounts = Array [],
       extractedCompanies = Malformed,
       similarity = Some (- 1 / 2) \<rparr>"

definition example_summary :: jsstring where
  "example_summary = js ''The emails mention no accounting data.''"

definition short_name_line :: parsed_line where
  "short_name_line =
     \<lparr> lineNo = 1, lineText = js ''BO:5 BO1:A BO2:X'', lineType = js ''BO'',
       searchText = Some (js ''BO:5 BO1:A BO2:X''),
       metadata = \<lparr> transactionId = None, md_amount = None, md_date = None \<rparr> \<rparr>"

text \<open>Parsed lines whose BO1 field begins with a marker fragment.\<close>

definition residue_lines :: "js_line list" where
  "residue_lines =
     [Object (Str (js ''TRID'')) (Str (js ''TRID:998877'')),
      Object (Str (js ''BO'')) (Str (js ''BO:1 BO1:BO7:AC''))]"

section \<open>Properties of double arithmetic\<close>

lemma Math_round_mono: "x \<le> y \<Longrightarrow> Math_round x \<le> Math_round y"
  unfolding Math_round_def by (simp add: floor_mono)

lemma pow2_powr: "pow2 k = 2 powr (of_int k)"
proof (cases "0 \<le> k")
  case True
  then have "(2::real) powr (of_int k) = 2 powr (real (nat k))" by simp
  also have "\<dots> = 2 ^ nat k" by (rule powr_realpow) simp
  finally show ?thesis using True by (simp add: pow2_def)
next
  case False
  then have "(2::real) powr (of_int k) = 2 powr (- real (nat (- k)))" by simp
  also have "\<dots> = 1 / 2 powr (real (nat (- k)))" by (simp add: powr_minus divide_simps)
  also have "\<dots> = 1 / 2 ^ nat (- k)" by (simp add: powr_realpow)
  finally show ?thesis using False by (simp add: pow2_def)
qed

lemma pow2_pos: "0 < pow2 k"
  by (simp add: pow2_powr)

lemma pow2_mono: "k \<le> l \<Longrightarrow> pow2 k \<le> pow2 l"
  by (simp add: pow2_powr)

lemma pow2_less_iff: "pow2 k < pow2 l \<longleftrightarrow> k < l"
  by (simp add: pow2_powr)

lemma pow2_add: "pow2 (k + l) = pow2 k * pow2 l"
  by (simp add: pow2_powr powr_add)

lemma pow2_diff: "pow2 (k - l) = pow2 k / pow2 l"
  by (simp add: pow2_powr powr_diff)

lemma pow2_le_of_int: "(2::int) ^ m \<le> n \<Longrightarrow> (2::real) ^ m \<le> real_of_int n"
proof -
  assume "(2::int) ^ m \<le> n"
  then have "real_of_int (2 ^ m) \<le> real_of_int n" by (simp only: of_int_le_iff)
  then show ?thesis by simp
qed

lemma of_int_le_pow2: "(n::int) \<le> 2 ^ m \<Longrightarrow> real_of_int n \<le> 2 ^ m"
proof -
  assume "n \<le> (2::int) ^ m"
  then have "real_of_int n \<le> real_of_int (2 ^ m)" by (simp only: of_int_le_iff)
  then show ?thesis by simp
qed

lemma expo_bounds:
  assumes "0 < x"
  shows "pow2 (expo x) \<le> x" and "x < pow2 (expo x + 1)"
proof -
  have "pow2 (expo x) \<le> x \<and> x < pow2 (expo x + 1)"
  proof (cases "1 \<le> x")
    case True
    define n where "n = \<lfloor>x\<rfloor>"
    from True have n: "0 < n" by (simp add: n_def)
    from bitlen_bounds [OF n] have b: "2 ^ nat (bitlen n - 1) \<le> n" "n < 2 ^ nat (bitlen n)" by simp_all
    from n have b1: "1 \<le> bitlen n" by (simp add: bitlen_alt_def)
    have e: "expo x = bitlen n - 1" using True by (simp add: expo_def n_def)
    have "pow2 (expo x) = 2 ^ nat (bitlen n - 1)" using b1 by (simp add: e pow2_def)
    also have "\<dots> \<le> real_of_int n" using b(1) by (rule pow2_le_of_int)
    also have "\<dots> \<le> x" by (simp add: n_def)
    finally have lo: "pow2 (expo x) \<le> x" .
    from b(2) have "n + 1 \<le> 2 ^ nat (bitlen n)" by simp
    then have "real_of_int (n + 1) \<le> 2 ^ nat (bitlen n)"
      by (rule of_int_le_pow2)
    moreover have "x < real_of_int (n + 1)" by (simp add: n_def)
    moreover have "pow2 (expo x + 1) = 2 ^ nat (bitlen n)" using b1 by (simp add: e pow2_def)
    ultimately have "x < pow2 (expo x + 1)" by simp
    with lo show ?thesis by simp
  next
    case False
    define k where "k = \<lceil>1 / x\<rceil> - 1"
    from False assms have "1 < 1 / x" by simp
    then have k: "0 < k" unfolding k_def by linarith
    have kx: "real_of_int k < 1 / x" "1 / x \<le> real_of_int k + 1" unfolding k_def by linarith+
    from bitlen_bounds [OF k] have b: "2 ^ nat (bitlen k - 1) \<le> k" "k < 2 ^ nat (bitlen k)" by simp_all
    from k have b1: "1 \<le> bitlen k" by (simp add: bitlen_alt_def)
    have e: "expo x = - bitlen k" using False by (simp add: expo_def k_def)
    from b(2) have "k + 1 \<le> 2 ^ nat (bitlen k)" by simp
    then have "real_of_int (k + 1) \<le> 2 ^ nat (bitlen k)"
      by (rule of_int_le_pow2)
    then have "real_of_int k + 1 \<le> 2 ^ nat (bitlen k)"
      by simp
    with kx(2) have "1 / x \<le> 2 ^ nat (bitlen k)" by simp
    with assms have "1 / 2 ^ nat (bitlen k) \<le> x"
      by (simp add: field_simps)
    moreover have "pow2 (expo x) = 1 / 2 ^ nat (bitlen k)" using b1 by (simp add: e pow2_def)
    ultimately have lo: "pow2 (expo x) \<le> x" by simp
    from b(1) have "(2::real) ^ nat (bitlen k - 1) \<le> real_of_int k"
      by (rule pow2_le_of_int)
    with kx(1) have "2 ^ nat (bitlen k - 1) < 1 / x" by linarith
    with assms have "x < 1 / 2 ^ nat (bitlen k - 1)" by (simp add: field_simps)
    moreover have "pow2 (expo x + 1) = 1 / 2 ^ nat (bitlen k - 1)"
    proof (cases "bitlen k = 1")
      case True
      then show ?thesis by (simp add: e pow2_def)
    next
      case False
      with b1 have "expo x + 1 < 0" "- (expo x + 1) = bitlen k - 1" by (simp_all add: e)
      then show ?thesis by (simp add: pow2_def)
    qed
    ultimately have "x < pow2 (expo x + 1)" by simp
    with lo show ?thesis by simp
  qed
  then show "pow2 (expo x) \<le> x" and "x < pow2 (expo x + 1)" by simp_all
qed

lemma round_even_bounds: "\<lfloor>q\<rfloor> \<le> round_even q" "round_even q \<le> \<lfloor>q\<rfloor> + 1"
  by (simp_all add: round_even_def Let_def)

lemma round_even_err: "\<bar>of_int (round_even q) - q\<bar> \<le> 1 / 2"
  unfolding round_even_def Let_def by (auto; linarith)

lemma round_even_of_int: "round_even (of_int n) = n"
  by (simp add: round_even_def)

lemma round_even_mono:
  assumes "q \<le> q'"
  shows "round_even q \<le> round_even q'"
proof (cases "\<lfloor>q\<rfloor> = \<lfloor>q'\<rfloor>")
  case True
  with assms show ?thesis
    unfolding round_even_def Let_def by (auto; linarith)
next
  case False
  with assms have "\<lfloor>q\<rfloor> + 1 \<le> \<lfloor>q'\<rfloor>" using floor_mono [OF assms] by linarith
  with round_even_bounds(2) [of q] round_even_bounds(1) [of q'] show ?thesis by linarith
qed


lemma pow2_Suc: "pow2 (k + 1) = 2 * pow2 k"
  by (simp add: pow2_add) (simp add: pow2_def)

lemma fl_err: "\<bar>fl x - x\<bar> \<le> pow2 (max (expo \<bar>x\<bar>) (- 1022) - 52) / 2"
proof (cases "x = 0")
  case True
  then show ?thesis using pow2_pos [of "max (expo \<bar>x\<bar>) (- 1022) - 52"] by (simp add: fl_def)
next
  case False
  define u where "u = pow2 (max (expo \<bar>x\<bar>) (- 1022) - 52)"
  have u: "0 < u" by (simp add: u_def pow2_pos)
  have "fl x = of_int (round_even (x / u)) * u"
    using False by (simp add: fl_def Let_def u_def)
  then have "fl x - x = u * (of_int (round_even (x / u)) - x / u)"
    using u by (simp add: field_simps)
  then have "\<bar>fl x - x\<bar> = u * \<bar>of_int (round_even (x / u)) - x / u\<bar>"
    using u by (simp add: abs_mult)
  also have "\<dots> \<le> u * (1 / 2)"
    using u round_even_err [of "x / u"] by (intro mult_left_mono) simp_all
  finally show ?thesis by (simp add: u_def)
qed

lemma expo_less:
  assumes "0 < x" "x < pow2 (k + 1)"
  shows "expo x \<le> k"
proof -
  from expo_bounds(1) [OF assms(1)] assms(2) have "pow2 (expo x) < pow2 (k + 1)" by simp
  then show ?thesis by (simp add: pow2_less_iff)
qed

lemma fl_err_bound:
  assumes "\<bar>x\<bar> < pow2 (k + 1)" "- 1022 \<le> k"
  shows "\<bar>fl x - x\<bar> \<le> pow2 (k - 53)"
proof (cases "x = 0")
  case True
  then show ?thesis using pow2_pos [of "k - 53"] by (simp add: fl_def)
next
  case False
  then have "0 < \<bar>x\<bar>" by simp
  from expo_less [OF this assms(1)] assms(2) have "max (expo \<bar>x\<bar>) (- 1022) - 52 \<le> k - 52" by simp
  then have "pow2 (max (expo \<bar>x\<bar>) (- 1022) - 52) \<le> pow2 (k - 52)" by (rule pow2_mono)
  moreover have "pow2 (k - 52) = 2 * pow2 (k - 53)" using pow2_Suc [of "k - 53"] by simp
  ultimately show ?thesis using fl_err [of x] by simp
qed

lemma fl_nonneg:
  assumes "0 \<le> x"
  shows "0 \<le> fl x"
proof (cases "x = 0")
  case True
  then show ?thesis by (simp add: fl_def)
next
  case False
  define u where "u = pow2 (max (expo \<bar>x\<bar>) (- 1022) - 52)"
  have u: "0 < u" by (simp add: u_def pow2_pos)
  with assms have "0 \<le> x / u" by simp
  then have "0 \<le> \<lfloor>x / u\<rfloor>" by simp
  with round_even_bounds(1) [of "x / u"] have "0 \<le> round_even (x / u)" by linarith
  with u False show ?thesis by (simp add: fl_def Let_def u_def)
qed

lemma fl_mono_pos:
  assumes "0 < x" "x \<le> y"
  shows "fl x \<le> fl y"
proof -
  define ex where "ex = max (expo x) (- 1022)"
  define ey where "ey = max (expo y) (- 1022)"
  define ux where "ux = pow2 (ex - 52)"
  define uy where "uy = pow2 (ey - 52)"
  from assms have y: "0 < y" by simp
  have ux: "0 < ux" and uy: "0 < uy" by (simp_all add: ux_def uy_def pow2_pos)
  have fx: "fl x = of_int (round_even (x / ux)) * ux"
    using assms(1) by (simp add: fl_def Let_def ux_def ex_def)
  have fy: "fl y = of_int (round_even (y / uy)) * uy"
    using y by (simp add: fl_def Let_def uy_def ey_def)
  from expo_bounds(2) [OF y] assms(2) have "x < pow2 (expo y + 1)" by simp
  from expo_less [OF assms(1) this] have le: "ex \<le> ey" by (simp add: ex_def ey_def)
  show ?thesis
  proof (cases "ex = ey")
    case True
    then have "ux = uy" by (simp add: ux_def uy_def)
    moreover from assms(2) uy have "x / uy \<le> y / uy" by (simp add: divide_right_mono)
    ultimately show ?thesis
      using round_even_mono [of "x / uy" "y / uy"] uy by (simp add: fx fy)
  next
    case False
    with le have lt: "ex + 1 \<le> ey" by simp
    then have "- 1022 < ey" by (simp add: ex_def)
    then have eyn: "ey = expo y" by (simp add: ey_def)
    have "x < pow2 (expo x + 1)" by (rule expo_bounds(2) [OF assms(1)])
    also have "\<dots> \<le> pow2 (ex + 1)" by (rule pow2_mono) (simp add: ex_def)
    finally have "x / ux < pow2 (ex + 1) / ux" using ux by (simp add: divide_strict_right_mono)
    also have "pow2 (ex + 1) / ux = pow2 53" using pow2_diff [of "ex + 1" "ex - 52"] by (simp add: ux_def)
    also have "\<dots> = of_int (2 ^ 53)" by (simp add: pow2_def)
    finally have "round_even (x / ux) \<le> round_even (of_int (2 ^ 53))"
      by (intro round_even_mono) simp
    then have "round_even (x / ux) \<le> 2 ^ 53" by (simp only: round_even_of_int)
    then have "real_of_int (round_even (x / ux)) \<le> pow2 53"
      by (simp add: pow2_def)
    then have "fl x \<le> pow2 53 * ux" using ux by (simp add: fx)
    also have "\<dots> = pow2 (ex + 1)" using pow2_add [of 53 "ex - 52"] by (simp add: ux_def add.commute)
    also have "\<dots> \<le> pow2 ey" using lt by (rule pow2_mono)
    finally have up: "fl x \<le> pow2 ey" .
    have "pow2 ey \<le> y" using expo_bounds(1) [OF y] by (simp add: eyn)
    then have "pow2 ey / uy \<le> y / uy" using uy by (simp add: divide_right_mono)
    moreover have "pow2 ey / uy = of_int (2 ^ 52)"
      using pow2_diff [of ey "ey - 52"] by (simp add: uy_def pow2_def)
    ultimately have "round_even (of_int (2 ^ 52)) \<le> round_even (y / uy)"
      by (intro round_even_mono) simp
    then have "2 ^ 52 \<le> round_even (y / uy)" by (simp only: round_even_of_int)
    then have "pow2 52 \<le> real_of_int (round_even (y / uy))"
      by (simp add: pow2_def)
    then have "pow2 52 * uy \<le> fl y" using uy by (simp add: fy)
    moreover have "pow2 52 * uy = pow2 ey" using pow2_add [of 52 "ey - 52"] by (simp add: uy_def add.commute)
    ultimately show ?thesis using up by simp
  qed
qed

lemma fl_mono:
  assumes "0 \<le> x" "x \<le> y"
  shows "fl x \<le> fl y"
proof (cases "x = 0")
  case True
  with assms fl_nonneg [of y] show ?thesis by (simp add: fl_def)
next
  case False
  with assms have "0 < x" by simp
  then show ?thesis using assms(2) by (rule fl_mono_pos)
qed


lemma fl_exact: "fl 35 = 35" "fl 60 = 60" "fl 95 = 95" "fl 600 = 600" "fl 950 = 950"
  by code_simp+

lemma toConfidence_steps:
  assumes "0 \<le> s" "s \<le> 1"
  defines "a \<equiv> fl (s * 35)"
  defines "b \<equiv> fl (60 + a)"
  defines "c \<equiv> fl (b * 10)"
  defines "n \<equiv> Math_round c"
  shows "0 \<le> a \<and> a \<le> 35" "60 \<le> b \<and> b \<le> 95" "600 \<le> c \<and> c \<le> 950" "600 \<le> n \<and> n \<le> 950"
    "toConfidence s = fl (of_int n / 10)"
proof -
  from assms(1,2) have "0 \<le> s * 35" "s * 35 \<le> 35" by simp_all
  with fl_nonneg [of "s * 35"] fl_mono [of "s * 35" 35] show a: "0 \<le> a \<and> a \<le> 35"
    by (simp add: a_def fl_exact)
  then have "(60::real) \<le> 60 + a" "60 + a \<le> 95" by simp_all
  with fl_mono [of 60 "60 + a"] fl_mono [of "60 + a" 95] show b: "60 \<le> b \<and> b \<le> 95"
    by (simp add: b_def fl_exact)
  then have "(600::real) \<le> b * 10" "b * 10 \<le> 950" by simp_all
  with fl_mono [of 600 "b * 10"] fl_mono [of "b * 10" 950] show c: "600 \<le> c \<and> c \<le> 950"
    by (simp add: c_def fl_exact)
  then have "Math_round 600 \<le> n" "n \<le> Math_round 950"
    by (simp_all add: n_def Math_round_mono)
  then show "600 \<le> n \<and> n \<le> 950" by (simp add: Math_round_def)
  show "toConfidence s = fl (of_int n / 10)"
    by (simp add: toConfidence_def n_def c_def b_def a_def)
qed

lemma toConfidence_range:
  assumes "0 \<le> s" "s \<le> 1"
  shows "60 \<le> toConfidence s" "toConfidence s \<le> 95"
proof -
  define n where "n = Math_round (fl (fl (60 + fl (s * 35)) * 10))"
  from toConfidence_steps(4,5) [OF assms] have n: "600 \<le> n" "n \<le> 950"
    and t: "toConfidence s = fl (of_int n / 10)" by (simp_all add: n_def)
  from n have "(60::real) \<le> of_int n / 10" "real_of_int n / 10 \<le> 95" by simp_all
  with fl_mono [of 60 "of_int n / 10"] fl_mono [of "of_int n / 10" 95]
  show "60 \<le> toConfidence s" "toConfidence s \<le> 95"
    by (simp_all add: t fl_exact)
qed

lemma toConfidence_close:
  assumes "0 \<le> s" "s \<le> 1"
  shows "\<bar>toConfidence s - (60 + 35 * s)\<bar> \<le> 1 / 20 + 1 / 10 ^ 12"
proof -
  define a where "a = fl (s * 35)"
  define b where "b = fl (60 + a)"
  define c where "c = fl (b * 10)"
  define n where "n = Math_round c"
  from toConfidence_steps [OF assms] have
    r: "0 \<le> a \<and> a \<le> 35" "60 \<le> b \<and> b \<le> 95" "600 \<le> c \<and> c \<le> 950" "600 \<le> n \<and> n \<le> 950"
    and t: "toConfidence s = fl (of_int n / 10)"
    by (simp_all add: a_def b_def c_def n_def)
  have p: "pow2 6 = 64" "pow2 7 = 128" "pow2 10 = 1024" "pow2 (- 48) = 1 / 2 ^ 48"
    "pow2 (- 47) = 1 / 2 ^ 47" "pow2 (- 44) = 1 / 2 ^ 44"
    by (simp_all add: pow2_def)
  from assms have "\<bar>s * 35\<bar> < pow2 (5 + 1)" by (simp add: p)
  from fl_err_bound [OF this] have ea: "\<bar>a - s * 35\<bar> \<le> 1 / 2 ^ 48" by (simp add: a_def p)
  from r(1) have "\<bar>60 + a\<bar> < pow2 (6 + 1)" by (simp add: p)
  from fl_err_bound [OF this] have eb: "\<bar>b - (60 + a)\<bar> \<le> 1 / 2 ^ 47" by (simp add: b_def p)
  from r(2) have "\<bar>b * 10\<bar> < pow2 (9 + 1)" by (simp add: p)
  from fl_err_bound [OF this] have ec: "\<bar>c - b * 10\<bar> \<le> 1 / 2 ^ 44" by (simp add: c_def p)
  have en: "\<bar>of_int n - c\<bar> \<le> 1 / 2" unfolding n_def Math_round_def by linarith
  from r(4) have "\<bar>real_of_int n / 10\<bar> < pow2 (6 + 1)" by (simp add: p)
  from fl_err_bound [OF this] have ed: "\<bar>toConfidence s - of_int n / 10\<bar> \<le> 1 / 2 ^ 47"
    by (simp add: t p)
  have small: "(1::real) / 2 ^ 48 \<le> 1 / 100000000000000" "(1::real) / 2 ^ 47 \<le> 1 / 100000000000000"
    "(1::real) / 2 ^ 44 \<le> 1 / 10000000000000"
    by simp_all
  from ea small(1) have ea': "\<bar>a - s * 35\<bar> \<le> 1 / 100000000000000" by (rule order_trans)
  from eb small(2) have eb': "\<bar>b - (60 + a)\<bar> \<le> 1 / 100000000000000" by (rule order_trans)
  from ec small(3) have ec': "\<bar>c - b * 10\<bar> \<le> 1 / 10000000000000" by (rule order_trans)
  from ed small(2) have ed': "\<bar>toConfidence s - of_int n / 10\<bar> \<le> 1 / 100000000000000"
    by (rule order_trans)
  have "\<bar>toConfidence s - (60 + 35 * s)\<bar> \<le> 1 / 20 + 1 / 1000000000000"
    using ea' eb' ec' en ed' by linarith
  then show ?thesis by simp
qed

section \<open>Properties of the line matcher\<close>

lemma map_get_map_set: "map_get (map_set kvs k v) k' = (if k' = k then Some v else map_get kvs k')"
  by (induction kvs) auto

lemma map_get_Some_mem: "map_get kvs k = Some v \<Longrightarrow> (k, v) \<in> set kvs"
  by (induction kvs) (auto split: if_splits)

lemma keys_map_set:
  "map fst (map_set kvs k v) = (if k \<in> fst ` set kvs then map fst kvs else map fst kvs @ [k])"
  by (induction kvs) (auto simp: image_iff split: if_splits)

lemma set_map_set: "set (map_set kvs k v) \<subseteq> insert (k, v) (set kvs)"
  by (induction kvs) (auto split: if_splits)

lemma distinct_map_set: "distinct (map fst kvs) \<Longrightarrow> distinct (map fst (map_set kvs k v))"
  by (simp add: keys_map_set)

lemma distinct_dedup_step: "distinct (map fst mm) \<Longrightarrow> distinct (map fst (dedup_step mm m))"
  by (simp add: dedup_step_def Let_def distinct_map_set split: option.splits)

lemma distinct_dedup_loop: "distinct (map fst mm) \<Longrightarrow> distinct (map fst (dedup_loop mm ms))"
  by (induction ms arbitrary: mm) (simp_all add: distinct_dedup_step)

lemma set_dedup_step: "set (dedup_step mm m) \<subseteq> insert (ID m, m) (set mm)"
  using set_map_set [of mm "ID m" m]
  by (auto simp: dedup_step_def Let_def split: option.splits)

lemma set_dedup_loop: "set (dedup_loop mm ms) \<subseteq> set mm \<union> (\<lambda>m. (ID m, m)) ` set ms"
proof (induction ms arbitrary: mm)
  case Nil
  then show ?case by simp
next
  case (Cons m ms)
  have "set (dedup_loop (dedup_step mm m) ms) \<subseteq> set (dedup_step mm m) \<union> (\<lambda>m. (ID m, m)) ` set ms"
    by (rule Cons.IH)
  with set_dedup_step [of mm m] show ?case by auto
qed

lemma dedup_step_grows:
  "map_get mm k = Some v \<Longrightarrow> \<exists>v'. map_get (dedup_step mm m) k = Some v' \<and> confidence v \<le> confidence v'"
  by (auto simp: dedup_step_def Let_def map_get_map_set split: option.splits)

lemma dedup_step_covers:
  "\<exists>v. map_get (dedup_step mm m) (ID m) = Some v \<and> confidence m \<le> confidence v"
  by (auto simp: dedup_step_def Let_def map_get_map_set split: option.splits)

lemma dedup_loop_grows:
  "map_get mm k = Some v \<Longrightarrow> \<exists>v'. map_get (dedup_loop mm ms) k = Some v' \<and> confidence v \<le> confidence v'"
proof (induction ms arbitrary: mm v)
  case Nil
  then show ?case by simp
next
  case (Cons m ms)
  from dedup_step_grows [OF Cons.prems, of m]
  obtain w where w: "map_get (dedup_step mm m) k = Some w" "confidence v \<le> confidence w" by blast
  from Cons.IH [OF w(1)] obtain v' where "map_get (dedup_loop (dedup_step mm m) ms) k = Some v'" "confidence w \<le> confidence v'"
    by blast
  with w(2) show ?case by auto
qed

lemma dedup_loop_covers:
  "m \<in> set ms \<Longrightarrow> \<exists>v. map_get (dedup_loop mm ms) (ID m) = Some v \<and> confidence m \<le> confidence v"
proof (induction ms arbitrary: mm)
  case Nil
  then show ?case by simp
next
  case (Cons x ms)
  show ?case
  proof (cases "m = x")
    case True
    from dedup_step_covers [of mm x] obtain w where
      w: "map_get (dedup_step mm x) (ID x) = Some w" "confidence x \<le> confidence w" by blast
    from dedup_loop_grows [OF w(1), of ms] w(2) True show ?thesis by auto
  next
    case False
    with Cons.prems have "m \<in> set ms" by simp
    from Cons.IH [OF this] show ?thesis by simp
  qed
qed

lemma dedup_loop_keys:
  assumes "\<forall>(k, v)\<in>set mm. ID v = k"
  shows "\<forall>(k, v)\<in>set (dedup_loop mm ms). ID v = k"
  using assms set_dedup_loop [of mm ms] by auto

lemma map_ID_deduplicateMatches: "map ID (deduplicateMatches ms) = map fst (dedup_loop [] ms)"
  using dedup_loop_keys [of "[]" ms]
  by (auto simp: deduplicateMatches_def map_values_def)

lemma distinct_deduplicateMatches: "distinct (map ID (deduplicateMatches ms))"
  by (simp add: map_ID_deduplicateMatches distinct_dedup_loop)

lemma set_deduplicateMatches: "set (deduplicateMatches ms) \<subseteq> set ms"
  using set_dedup_loop [of "[]" ms]
  by (auto simp: deduplicateMatches_def map_values_def)

lemma deduplicateMatches_covers:
  assumes "m \<in> set ms"
  shows "\<exists>k\<in>set (deduplicateMatches ms). ID k = ID m \<and> confidence m \<le> confidence k"
proof -
  from dedup_loop_covers [OF assms, of "[]"] obtain v where
    v: "map_get (dedup_loop [] ms) (ID m) = Some v" "confidence m \<le> confidence v" by blast
  from map_get_Some_mem [OF v(1)] have mem: "(ID m, v) \<in> set (dedup_loop [] ms)" .
  with dedup_loop_keys [of "[]" ms] have "ID v = ID m" by auto
  moreover from mem have "v \<in> set (deduplicateMatches ms)"
    by (force simp: deduplicateMatches_def map_values_def)
  ultimately show ?thesis using v(2) by blast
qed

lemma filter_distinct_key:
  "distinct (map f ys) \<Longrightarrow> k \<in> set ys \<Longrightarrow> filter (\<lambda>x. f x = f k) ys = [k]"
proof (induction ys)
  case Nil
  then show ?case by simp
next
  case (Cons y ys)
  show ?case
  proof (cases "y = k")
    case True
    with Cons.prems have "\<forall>x\<in>set ys. f x \<noteq> f k" by (auto simp: image_iff)
    then have "filter (\<lambda>x. f x = f k) ys = []" by (simp add: filter_empty_conv)
    with True show ?thesis by simp
  next
    case False
    with Cons.prems have "k \<in> set ys" "f y \<noteq> f k" by auto
    with Cons show ?thesis by simp
  qed
qed

lemma sort_desc_sorted: "sorted_wrt (\<lambda>a b. confidence a \<ge> confidence b) (sort_desc xs)"
proof -
  have "sorted (map (\<lambda>m. - confidence m) (sort_desc xs))"
    unfolding sort_desc_def by (rule sorted_sort_key)
  then show ?thesis by (simp add: sorted_map)
qed

lemma distinct_map_sort_desc: "distinct (map ID xs) \<Longrightarrow> distinct (map ID (sort_desc xs))"
  by (simp add: distinct_map sort_desc_def)

text \<open>
  Claim C1. Whatever the line and the backends, a list that \<open>searchLine\<close> returns holds no
  match with confidence below 85 and no two matches with the same ID, and its confidences
  never increase from one entry to the next.
\<close>

theorem searchLine_result_invariant:
  assumes "searchLine connect input = Inr ms"
  shows "(\<forall>m\<in>set ms. confidence m \<ge> 85) \<and> distinct (map ID ms) \<and>
         sorted_wrt (\<lambda>a b. confidence a \<ge> confidence b) ms"
proof (cases "\<exists>line db. input = Some line \<and> \<not> (line = [] \<or> length (trim line) < 5) \<and> connect = Inr db")
  case True
  then obtain line db where c: "input = Some line" "\<not> (line = [] \<or> length (trim line) < 5)"
    "connect = Inr db" by blast
  define allMatches :: "'a match list" where
    "allMatches = catch_empty (fuzzySearch db line) @ catch_empty (vectorSearch db line)
                    @ catch_empty (openaiEmbeddingSearch db line)"
  from assms c have ms: "ms = sort_desc (filter (\<lambda>m. confidence m \<ge> MIN_CONFIDENCE) (deduplicateMatches allMatches))"
    by (simp add: searchLine_def searchLineWith_def Let_def allMatches_def)
  have "\<forall>m\<in>set ms. confidence m \<ge> 85"
    by (simp add: ms sort_desc_def MIN_CONFIDENCE_def)
  moreover have "distinct (map ID ms)"
    unfolding ms
    by (intro distinct_map_sort_desc distinct_map_filter distinct_deduplicateMatches)
  moreover have "sorted_wrt (\<lambda>a b. confidence a \<ge> confidence b) ms"
    unfolding ms by (rule sort_desc_sorted)
  ultimately show ?thesis by blast
next
  case False
  with assms have "ms = []"
    by (auto simp: searchLine_def searchLineWith_def split: option.splits if_splits sum.splits)
  then show ?thesis by simp
qed

lemma ranked_holds:
  fixes S :: "'p match list"
  defines "out \<equiv> sort_desc (filter (\<lambda>m. 85 \<le> confidence m) (deduplicateMatches S))"
  shows "set out \<subseteq> set S"
    and "\<forall>m\<in>set S. 85 \<le> confidence m \<longrightarrow> (\<exists>k\<in>set out. ID k = ID m \<and> confidence m \<le> confidence k)"
    and "\<forall>k\<in>set out. 85 \<le> confidence k"
    and "distinct (map ID out)"
    and "sorted_wrt (\<lambda>a b. confidence b \<le> confidence a) out"
proof -
  show "set out \<subseteq> set S"
    using set_deduplicateMatches [of S] by (auto simp: out_def sort_desc_def)
  show "\<forall>m\<in>set S. 85 \<le> confidence m \<longrightarrow> (\<exists>k\<in>set out. ID k = ID m \<and> confidence m \<le> confidence k)"
  proof (intro ballI impI)
    fix m assume m: "m \<in> set S" "85 \<le> confidence m"
    from deduplicateMatches_covers [OF m(1)] obtain k where
      k: "k \<in> set (deduplicateMatches S)" "ID k = ID m" "confidence m \<le> confidence k" by blast
    with m(2) have "k \<in> set out" by (simp add: out_def sort_desc_def)
    with k show "\<exists>k\<in>set out. ID k = ID m \<and> confidence m \<le> confidence k" by blast
  qed
  show "\<forall>k\<in>set out. 85 \<le> confidence k"
    by (simp add: out_def sort_desc_def)
  show "distinct (map ID out)"
    unfolding out_def
    by (intro distinct_map_sort_desc distinct_map_filter distinct_deduplicateMatches)
  show "sorted_wrt (\<lambda>a b. confidence b \<le> confidence a) out"
    unfolding out_def by (rule sort_desc_sorted)
qed

lemma searchLineWith_long:
  assumes "line \<noteq> []" "5 \<le> length (trim line)"
  shows "searchLineWith fuzzy vector openai (Inr db) (Some line) =
           Inr (sort_desc (filter (\<lambda>m. 85 \<le> confidence m)
             (deduplicateMatches
                ((case fuzzy db line of Inl err \<Rightarrow> [] | Inr ms \<Rightarrow> ms) @
                 (case vector db line of Inl err \<Rightarrow> [] | Inr ms \<Rightarrow> ms) @
                 (case openai db line of Inl err \<Rightarrow> [] | Inr ms \<Rightarrow> ms)))))"
  using assms by (simp add: searchLineWith_def catch_empty_def Let_def MIN_CONFIDENCE_def)

lemma strategy_results:
  "fuzzySearch db line = Inr (case db FuzzySQL line of Inl err \<Rightarrow> [] | Inr rows \<Rightarrow> map fuzzyMatch rows)"
  "vectorSearch db line = Inr (case db VectorSQL line of Inl err \<Rightarrow> [] | Inr rows \<Rightarrow> map vectorMatch rows)"
  "openaiEmbeddingSearch db line =
     Inr (case db OpenAISQL line of Inl err \<Rightarrow> [] | Inr rows \<Rightarrow> map openaiMatch rows)"
  by (simp_all add: fuzzySearch_def vectorSearch_def openaiEmbeddingSearch_def split: sum.splits)

text \<open>
  Claim C4. Take a line that reaches the strategies (its trimmed text has five code units or
  more) and let one of the three strategies reject. Then \<open>searchLine\<close> does not reject: it
  returns a list \<open>out\<close>, and with \<open>S\<close> the results of the strategies that returned, in the
  order fuzzy, vector, OpenAI, a rejected strategy adding nothing, \<open>out\<close> is \<open>S\<close> deduplicated,
  filtered at 85 and sorted. In particular every entry of \<open>out\<close> is a match of a remaining
  strategy, every match of a remaining strategy with confidence 85 or more has its ID in
  \<open>out\<close> with at least that confidence, no ID occurs twice, and the confidences never
  increase. The same holds for \<open>searchLine\<close> with its own three strategies when a query fails
  in the database.
\<close>

theorem failing_strategy_is_isolated:
  assumes "line \<noteq> []" and "5 \<le> length (trim line)"
  shows
   "(fuzzy db line = Inl e \<or> vector db line = Inl e \<or> openai db line = Inl e \<longrightarrow>
      (\<exists>S out.
         S = (case fuzzy db line of Inl err \<Rightarrow> [] | Inr ms \<Rightarrow> ms) @
             (case vector db line of Inl err \<Rightarrow> [] | Inr ms \<Rightarrow> ms) @
             (case openai db line of Inl err \<Rightarrow> [] | Inr ms \<Rightarrow> ms) \<and>
         searchLineWith fuzzy vector openai (Inr db) (Some line) = Inr out \<and>
         out = sort_desc (filter (\<lambda>m. 85 \<le> confidence m) (deduplicateMatches S)) \<and>
         set out \<subseteq> set S \<and>
         (\<forall>m\<in>set S. 85 \<le> confidence m \<longrightarrow>
            (\<exists>k\<in>set out. ID k = ID m \<and> confidence m \<le> confidence k)) \<and>
         (\<forall>k\<in>set out. 85 \<le> confidence k) \<and> distinct (map ID out) \<and>
         sorted_wrt (\<lambda>a b. confidence b \<le> confidence a) out)) \<and>
    (db q line = Inl e \<longrightarrow>
      (\<exists>S out.
         S = (case db FuzzySQL line of Inl err \<Rightarrow> [] | Inr rows \<Rightarrow> map fuzzyMatch rows) @
             (case db VectorSQL line of Inl err \<Rightarrow> [] | Inr rows \<Rightarrow> map vectorMatch rows) @
             (case db OpenAISQL line of Inl err \<Rightarrow> [] | Inr rows \<Rightarrow> map openaiMatch rows) \<and>
         searchLine (Inr db) (Some line) = Inr out \<and>
         out = sort_desc (filter (\<lambda>m. 85 \<le> confidence m) (deduplicateMatches S)) \<and>
         set out \<subseteq> set S \<and>
         (\<forall>m\<in>set S. 85 \<le> confidence m \<longrightarrow>
            (\<exists>k\<in>set out. ID k = ID m \<and> confidence m \<le> confidence k)) \<and>
         (\<forall>k\<in>set out. 85 \<le> confidence k) \<and> distinct (map ID out) \<and>
         sorted_wrt (\<lambda>a b. confidence b \<le> confidence a) out))"
proof (intro conjI impI)
  define S where "S = (case fuzzy db line of Inl err \<Rightarrow> [] | Inr ms \<Rightarrow> ms) @
             (case vector db line of Inl err \<Rightarrow> [] | Inr ms \<Rightarrow> ms) @
             (case openai db line of Inl err \<Rightarrow> [] | Inr ms \<Rightarrow> ms)"
  define out where "out = sort_desc (filter (\<lambda>m. 85 \<le> confidence m) (deduplicateMatches S))"
  have "searchLineWith fuzzy vector openai (Inr db) (Some line) = Inr out"
    unfolding out_def S_def by (rule searchLineWith_long [OF assms])
  with ranked_holds [of S] show "\<exists>S out.
         S = (case fuzzy db line of Inl err \<Rightarrow> [] | Inr ms \<Rightarrow> ms) @
             (case vector db line of Inl err \<Rightarrow> [] | Inr ms \<Rightarrow> ms) @
             (case openai db line of Inl err \<Rightarrow> [] | Inr ms \<Rightarrow> ms) \<and>
         searchLineWith fuzzy vector openai (Inr db) (Some line) = Inr out \<and>
         out = sort_desc (filter (\<lambda>m. 85 \<le> confidence m) (deduplicateMatches S)) \<and>
         set out \<subseteq> set S \<and>
         (\<forall>m\<in>set S. 85 \<le> confidence m \<longrightarrow>
            (\<exists>k\<in>set out. ID k = ID m \<and> confidence m \<le> confidence k)) \<and>
         (\<forall>k\<in>set out. 85 \<le> confidence k) \<and> distinct (map ID out) \<and>
         sorted_wrt (\<lambda>a b. confidence b \<le> confidence a) out"
    unfolding out_def S_def by blast
next
  define S where "S = (case db FuzzySQL line of Inl err \<Rightarrow> [] | Inr rows \<Rightarrow> map fuzzyMatch rows) @
             (case db VectorSQL line of Inl err \<Rightarrow> [] | Inr rows \<Rightarrow> map vectorMatch rows) @
             (case db OpenAISQL line of Inl err \<Rightarrow> [] | Inr rows \<Rightarrow> map openaiMatch rows)"
  define out where "out = sort_desc (filter (\<lambda>m. 85 \<le> confidence m) (deduplicateMatches S))"
  have "searchLine (Inr db) (Some line) = Inr out"
    unfolding out_def S_def searchLine_def searchLineWith_long [OF assms] strategy_results
    by simp
  with ranked_holds [of S] show "\<exists>S out.
         S = (case db FuzzySQL line of Inl err \<Rightarrow> [] | Inr rows \<Rightarrow> map fuzzyMatch rows) @
             (case db VectorSQL line of Inl err \<Rightarrow> [] | Inr rows \<Rightarrow> map vectorMatch rows) @
             (case db OpenAISQL line of Inl err \<Rightarrow> [] | Inr rows \<Rightarrow> map openaiMatch rows) \<and>
         searchLine (Inr db) (Some line) = Inr out \<and>
         out = sort_desc (filter (\<lambda>m. 85 \<le> confidence m) (deduplicateMatches S)) \<and>
         set out \<subseteq> set S \<and>
         (\<forall>m\<in>set S. 85 \<le> confidence m \<longrightarrow>
            (\<exists>k\<in>set out. ID k = ID m \<and> confidence m \<le> confidence k)) \<and>
         (\<forall>k\<in>set out. 85 \<le> confidence k) \<and> distinct (map ID out) \<and>
         sorted_wrt (\<lambda>a b. confidence b \<le> confidence a) out"
    unfolding out_def S_def by blast
qed

text \<open>
  Claim C5. For an ID that occurs among the merged matches, \<open>deduplicateMatches\<close> keeps
  exactly one entry, an entry of the input whose confidence no other entry of that ID
  exceeds. When the three strategies report one ID with confidences 90, 70 and 95,
  \<open>searchLine\<close> returns the single entry at 95.
\<close>

theorem deduplicateMatches_keeps_highest:
  "(m \<in> set matches \<longrightarrow>
      (\<exists>k. filter (\<lambda>x. ID x = ID m) (deduplicateMatches matches) = [k] \<and> k \<in> set matches \<and>
           (\<forall>x\<in>set matches. ID x = ID m \<longrightarrow> confidence x \<le> confidence k))) \<and>
   (db FuzzySQL line = Inr [ra] \<and> db VectorSQL line = Inr [rb] \<and> db OpenAISQL line = Inr [rc] \<and>
    r_ID ra = r_ID rb \<and> r_ID rb = r_ID rc \<and>
    confidence (fuzzyMatch ra) = 90 \<and> confidence (vectorMatch rb) = 70 \<and>
    confidence (openaiMatch rc) = 95 \<and> 5 \<le> length (trim line) \<longrightarrow>
      searchLine (Inr db) (Some line) = Inr [openaiMatch rc])"
proof (intro conjI impI)
  assume m: "m \<in> set matches"
  from deduplicateMatches_covers [OF m] obtain k where
    k: "k \<in> set (deduplicateMatches matches)" "ID k = ID m" by blast
  have one: "filter (\<lambda>x. ID x = ID m) (deduplicateMatches matches) = [k]"
    using filter_distinct_key [OF distinct_deduplicateMatches k(1)] k(2) by simp
  have "confidence x \<le> confidence k" if x: "x \<in> set matches" "ID x = ID m" for x
  proof -
    from deduplicateMatches_covers [OF x(1)] obtain k' where
      k': "k' \<in> set (deduplicateMatches matches)" "ID k' = ID x" "confidence x \<le> confidence k'"
      by blast
    from k'(1,2) x(2) have "k' \<in> set (filter (\<lambda>x. ID x = ID m) (deduplicateMatches matches))"
      by simp
    with one have "k' = k" by simp
    with k'(3) show ?thesis by simp
  qed
  with one k(1) set_deduplicateMatches [of matches]
  show "\<exists>k. filter (\<lambda>x. ID x = ID m) (deduplicateMatches matches) = [k] \<and> k \<in> set matches \<and>
           (\<forall>x\<in>set matches. ID x = ID m \<longrightarrow> confidence x \<le> confidence k)"
    by blast
next
  assume a: "db FuzzySQL line = Inr [ra] \<and> db VectorSQL line = Inr [rb] \<and> db OpenAISQL line = Inr [rc] \<and>
    r_ID ra = r_ID rb \<and> r_ID rb = r_ID rc \<and>
    confidence (fuzzyMatch ra) = 90 \<and> confidence (vectorMatch rb) = 70 \<and>
    confidence (openaiMatch rc) = 95 \<and> 5 \<le> length (trim line)"
  then have ids: "ID (fuzzyMatch ra) = r_ID rc" "ID (vectorMatch rb) = r_ID rc" "ID (openaiMatch rc) = r_ID rc"
    by (simp_all add: fuzzyMatch_def vectorMatch_def openaiMatch_def Let_def)
  from a have "line \<noteq> []" by (auto simp: trim_def)
  with a ids show "searchLine (Inr db) (Some line) = Inr [openaiMatch rc]"
    by (simp add: searchLine_def searchLineWith_def fuzzySearch_def vectorSearch_def
          openaiEmbeddingSearch_def catch_empty_def deduplicateMatches_def map_values_def
          dedup_step_def Let_def MIN_CONFIDENCE_def sort_desc_def)
qed

lemma match_confidence:
  "confidence (fuzzyMatch r) = toConfidence (rawScore (fuzzyMatch r))"
  "confidence (vectorMatch r) = toConfidence (rawScore (vectorMatch r))"
  "confidence (openaiMatch r) = toConfidence (rawScore (openaiMatch r))"
  by (simp_all add: fuzzyMatch_def vectorMatch_def openaiMatch_def Let_def)

text \<open>
  Claim C9, as stated, fails: the confidence is computed in double arithmetic, and for the
  raw score \<open>0.7128571428571429\<close> the product with 10 is rounded to 849.5, which
  \<open>Math.round\<close> takes to 850, while 60 + 35 s rounded to one decimal place is 84.9.
\<close>

theorem confidence_rounding_counterexample:
  "rawScore (vectorMatch (example_row ''h1'' boundary_score)) = 3210423162939825 / 4503599627370496 \<and>
   confidence (vectorMatch (example_row ''h1'' boundary_score)) = 85 \<and>
   spec_round_1dp (60 + 35 * (3210423162939825 / 4503599627370496)) = 849 / 10 \<and>
   confidence (vectorMatch (example_row ''h1'' boundary_score))
     \<noteq> spec_round_1dp (60 + 35 * rawScore (vectorMatch (example_row ''h1'' boundary_score)))"
proof -
  have r: "rawScore (vectorMatch (example_row ''h1'' boundary_score)) = 3210423162939825 / 4503599627370496"
    by (simp add: vectorMatch_def example_row_def or_num0_def boundary_score_def Let_def)
  have t: "toConfidence (3210423162939825 / 4503599627370496) = 85"
    by code_simp
  have e: "spec_round_1dp (60 + 35 * (3210423162939825 / 4503599627370496)) = 849 / 10"
    by code_simp
  have c: "confidence (vectorMatch (example_row ''h1'' boundary_score)) = 85"
    unfolding match_confidence r by (rule t)
  show ?thesis
    unfolding c r e by simp
qed

text \<open>
  Claim C9, amended. Each strategy takes the raw score \<open>s\<close> from its own column of the row
  (\<open>SCORE\<close>, else \<open>score\<close>, for the fuzzy search; \<open>SIMILARITY\<close>, else \<open>similarity\<close>, for the two
  vector searches; 0 when both are missing or 0) and computes the confidence as
  \<open>Math.round((60 + s * 35) * 10) / 10\<close> in double arithmetic. For a raw score in [0, 1] the
  confidence lies in [60, 95] and differs from 60 + 35 s by at most 0.05 and what the
  double operations add, less than a billionth.
\<close>

theorem confidence_from_raw_score:
  "rawScore (fuzzyMatch r) =
     (case r_SCORE r of
        Some x \<Rightarrow> if x \<noteq> 0 then x else (case r_score r of Some y \<Rightarrow> y | None \<Rightarrow> 0)
      | None \<Rightarrow> (case r_score r of Some y \<Rightarrow> y | None \<Rightarrow> 0)) \<and>
   rawScore (vectorMatch r) =
     (case r_SIMILARITY r of
        Some x \<Rightarrow> if x \<noteq> 0 then x else (case r_similarity r of Some y \<Rightarrow> y | None \<Rightarrow> 0)
      | None \<Rightarrow> (case r_similarity r of Some y \<Rightarrow> y | None \<Rightarrow> 0)) \<and>
   rawScore (openaiMatch r) = rawScore (vectorMatch r) \<and>
   (\<forall>m\<in>{fuzzyMatch r, vectorMatch r, openaiMatch r}.
      confidence m = fl (of_int \<lfloor>fl (fl (60 + fl (rawScore m * 35)) * 10) + 1 / 2\<rfloor> / 10) \<and>
      (0 \<le> rawScore m \<and> rawScore m \<le> 1 \<longrightarrow>
         60 \<le> confidence m \<and> confidence m \<le> 95 \<and>
         \<bar>confidence m - (60 + 35 * rawScore m)\<bar> \<le> 1 / 20 + 1 / 10 ^ 12))"
proof (intro conjI ballI)
  show "rawScore (fuzzyMatch r) =
     (case r_SCORE r of
        Some x \<Rightarrow> if x \<noteq> 0 then x else (case r_score r of Some y \<Rightarrow> y | None \<Rightarrow> 0)
      | None \<Rightarrow> (case r_score r of Some y \<Rightarrow> y | None \<Rightarrow> 0))"
    by (simp add: fuzzyMatch_def Let_def or_num0_def)
  show "rawScore (vectorMatch r) =
     (case r_SIMILARITY r of
        Some x \<Rightarrow> if x \<noteq> 0 then x else (case r_similarity r of Some y \<Rightarrow> y | None \<Rightarrow> 0)
      | None \<Rightarrow> (case r_similarity r of Some y \<Rightarrow> y | None \<Rightarrow> 0))"
    by (simp add: vectorMatch_def Let_def or_num0_def)
  show "rawScore (openaiMatch r) = rawScore (vectorMatch r)"
    by (simp add: vectorMatch_def openaiMatch_def Let_def)
next
  fix m
  assume "m \<in> {fuzzyMatch r, vectorMatch r, openaiMatch r}"
  then have c: "confidence m = toConfidence (rawScore m)"
    using match_confidence [of r] by auto
  show "confidence m = fl (of_int \<lfloor>fl (fl (60 + fl (rawScore m * 35)) * 10) + 1 / 2\<rfloor> / 10)"
    by (simp add: c toConfidence_def Math_round_def)
  show "0 \<le> rawScore m \<and> rawScore m \<le> 1 \<longrightarrow>
         60 \<le> confidence m \<and> confidence m \<le> 95 \<and>
         \<bar>confidence m - (60 + 35 * rawScore m)\<bar> \<le> 1 / 20 + 1 / 10 ^ 12"
    unfolding c
    using toConfidence_range [of "rawScore m"] toConfidence_close [of "rawScore m"] by blast
qed

lemma example_confidence:
  "toConfidence (439 / 512) = 90" "toConfidence (73 / 256) = 70" "toConfidence (183 / 256) = 85"
  "toConfidence (1 / 2) = 775 / 10" "toConfidence 1 = 95"
  by code_simp+

lemmas eval_matcher = searchLine_def searchLineWith_def fuzzySearch_def vectorSearch_def
  openaiEmbeddingSearch_def catch_empty_def deduplicateMatches_def map_values_def dedup_step_def
  Let_def MIN_CONFIDENCE_def sort_desc_def fuzzyMatch_def vectorMatch_def openaiMatch_def
  example_confidence or_num0_def or_str_def falsy_str_def example_row_def
  example_line_def js_def trim_def is_space_def

theorem searchLine_result_invariant_witness:
  "searchLine (Inr example_db) (Some example_line)
     = Inr [openaiMatch (example_row ''h1'' 1), openaiMatch (example_row ''h3'' (183 / 256))] \<and>
   confidence (openaiMatch (example_row ''h1'' 1)) \<ge> 85 \<and>
   confidence (openaiMatch (example_row ''h3'' (183 / 256))) \<ge> 85 \<and>
   distinct (map ID [openaiMatch (example_row ''h1'' 1), openaiMatch (example_row ''h3'' (183 / 256))]) \<and>
   sorted_wrt (\<lambda>a b. confidence a \<ge> confidence b)
     [openaiMatch (example_row ''h1'' 1), openaiMatch (example_row ''h3'' (183 / 256))]"
proof -
  have h: "searchLine (Inr example_db) (Some example_line)
     = Inr [openaiMatch (example_row ''h1'' 1), openaiMatch (example_row ''h3'' (183 / 256))]"
    by (simp add: eval_matcher example_db_def)
  from searchLine_result_invariant [OF h] h show ?thesis by simp
qed

theorem failing_strategy_is_isolated_witness:
  "searchLineWith fuzzySearch vectorSearch (\<lambda>d t. Inl (Error (js ''timeout'')))
       (Inr failing_db) (Some example_line)
     = Inr [vectorMatch (example_row ''h1'' (439 / 512))] \<and>
   searchLine (Inr failing_db) (Some example_line)
     = Inr [openaiMatch (example_row ''h1'' 1), openaiMatch (example_row ''h3'' (183 / 256))]"
proof -
  have len: "example_line \<noteq> []" "5 \<le> length (trim example_line)"
    by (simp_all add: example_line_def js_def trim_def is_space_def)
  note inst = failing_strategy_is_isolated [OF len, where fuzzy = fuzzySearch
      and vector = vectorSearch and openai = "\<lambda>d t. Inl (Error (js ''timeout''))"
      and e = "Error (js ''timeout'')" and db = failing_db and q = FuzzySQL]
  have fd: "failing_db FuzzySQL example_line = Inl (Error (js ''timeout''))"
    by (simp add: failing_db_def)
  from inst [THEN conjunct1] obtain S out where
    a: "searchLineWith fuzzySearch vectorSearch (\<lambda>d t. Inl (Error (js ''timeout'')))
          (Inr failing_db) (Some example_line) = Inr out"
       "out = sort_desc (filter (\<lambda>m. 85 \<le> confidence m) (deduplicateMatches S))"
       "S = (case fuzzySearch failing_db example_line of Inl err \<Rightarrow> [] | Inr ms \<Rightarrow> ms) @
            (case vectorSearch failing_db example_line of Inl err \<Rightarrow> [] | Inr ms \<Rightarrow> ms) @
            (case Inl (Error (js ''timeout'')) of Inl err \<Rightarrow> [] | Inr ms \<Rightarrow> ms)"
    by (elim impE exE conjE) (rule disjI2, rule disjI2, rule refl, rule that)
  from inst [THEN conjunct2, rule_format, OF fd] obtain T res where
    b: "searchLine (Inr failing_db) (Some example_line) = Inr res"
       "res = sort_desc (filter (\<lambda>m. 85 \<le> confidence m) (deduplicateMatches T))"
       "T = (case failing_db FuzzySQL example_line of Inl err \<Rightarrow> [] | Inr rows \<Rightarrow> map fuzzyMatch rows) @
            (case failing_db VectorSQL example_line of Inl err \<Rightarrow> [] | Inr rows \<Rightarrow> map vectorMatch rows) @
            (case failing_db OpenAISQL example_line of Inl err \<Rightarrow> [] | Inr rows \<Rightarrow> map openaiMatch rows)"
    by (elim exE conjE) (rule that)
  have "out = [vectorMatch (example_row ''h1'' (439 / 512))]"
    unfolding a(2) a(3) by (simp add: eval_matcher failing_db_def)
  moreover have "res = [openaiMatch (example_row ''h1'' 1), openaiMatch (example_row ''h3'' (183 / 256))]"
    unfolding b(2) b(3) by (simp add: eval_matcher failing_db_def)
  ultimately show ?thesis using a(1) b(1) by simp
qed

theorem deduplicateMatches_keeps_highest_witness:
  "(\<exists>k. filter (\<lambda>x. ID x = js ''h1'')
          (deduplicateMatches [fuzzyMatch (example_row ''h1'' (439 / 512)),
             vectorMatch (example_row ''h1'' (73 / 256)), openaiMatch (example_row ''h1'' 1)]) = [k] \<and>
        confidence k = 95) \<and>
   searchLine (Inr scenario_db) (Some example_line) = Inr [openaiMatch (example_row ''h1'' 1)]"
proof -
  let ?a = "fuzzyMatch (example_row ''h1'' (439 / 512))"
  let ?b = "vectorMatch (example_row ''h1'' (73 / 256))"
  let ?c = "openaiMatch (example_row ''h1'' 1)"
  have conf: "confidence ?a = 90" "confidence ?b = 70" "confidence ?c = 95"
    by (simp_all add: eval_matcher)
  have ids: "ID ?a = js ''h1''" "ID ?b = js ''h1''" "ID ?c = js ''h1''"
    by (simp_all add: fuzzyMatch_def vectorMatch_def openaiMatch_def example_row_def Let_def)
  have len: "5 \<le> length (trim example_line)"
    by (simp add: example_line_def js_def trim_def is_space_def)
  note inst = deduplicateMatches_keeps_highest [where m = ?a and matches = "[?a, ?b, ?c]"
      and db = scenario_db and line = example_line and ra = "example_row ''h1'' (439 / 512)"
      and rb = "example_row ''h1'' (73 / 256)" and rc = "example_row ''h1'' 1"]
  from inst obtain k where
    k: "filter (\<lambda>x. ID x = ID ?a) (deduplicateMatches [?a, ?b, ?c]) = [k]"
       "\<forall>x\<in>set [?a, ?b, ?c]. ID x = ID ?a \<longrightarrow> confidence x \<le> confidence k"
       "k \<in> set [?a, ?b, ?c]"
    by auto
  from k(2) ids conf have "95 \<le> confidence k" by simp
  moreover from k(3) conf have "confidence k \<le> 95" by auto
  ultimately have "confidence k = 95" by simp
  with k(1) ids have first: "\<exists>k. filter (\<lambda>x. ID x = js ''h1'') (deduplicateMatches [?a, ?b, ?c]) = [k] \<and>
        confidence k = 95" by auto
  from inst conf len have "searchLine (Inr scenario_db) (Some example_line) = Inr [?c]"
    by (simp add: scenario_db_def example_row_def)
  with first show ?thesis by blast
qed

theorem confidence_from_raw_score_witness:
  "rawScore (vectorMatch (example_row ''h1'' (1 / 2))) = 1 / 2 \<and>
   confidence (vectorMatch (example_row ''h1'' (1 / 2))) = 775 / 10 \<and>
   60 \<le> confidence (vectorMatch (example_row ''h1'' (1 / 2))) \<and>
   confidence (vectorMatch (example_row ''h1'' (1 / 2))) \<le> 95 \<and>
   \<bar>confidence (vectorMatch (example_row ''h1'' (1 / 2))) - (60 + 35 * (1 / 2))\<bar>
     \<le> 1 / 20 + 1 / 10 ^ 12"
proof -
  have r: "rawScore (vectorMatch (example_row ''h1'' (1 / 2))) = 1 / 2"
    by (simp add: eval_matcher)
  have c: "confidence (vectorMatch (example_row ''h1'' (1 / 2))) = 775 / 10"
    by (simp add: eval_matcher)
  from confidence_from_raw_score [of "example_row ''h1'' (1 / 2)"] r c show ?thesis
    by simp
qed

section \<open>Properties of the line parser\<close>

lemmas eval_str = js_def upper_def is_space_def is_digit_def trim_def ws_colon_def key_colon_def

lemmas eval_parser = eval_str LINE_PATTERNS_def identifyLineType_def extractSearchText_def
  extractBOText_def Let_def

lemma first_type_range: "first_type entries l \<in> set (js ''OTHER'' # map fst entries)"
  by (induction entries) force+

lemma identifyLineType_range:
  "identifyLineType l \<in> set (js ''OTHER'' # map fst LINE_PATTERNS)"
  using first_type_range [of LINE_PATTERNS l] by (simp only: identifyLineType_def)

lemma identifyLineType_labels:
  "identifyLineType l \<noteq> js ''SENDING PERSON''" "identifyLineType l \<noteq> js ''DETAILS''"
  using identifyLineType_range [of l] by (auto simp: LINE_PATTERNS_def js_def)

lemma extractSearchText_Some_iff:
  "extractSearchText l = Some s \<longleftrightarrow>
     s = l \<and> identifyLineType l \<in> {js ''BO'', js ''BO1'', js ''BO2'', js ''ORDER''}"
  using identifyLineType_labels [of l]
  by (auto simp: extractSearchText_def extractBOText_def Let_def)

lemma skipped_type_has_no_searchText:
  "identifyLineType l \<in> set skipTypes \<Longrightarrow> extractSearchText l = None"
  by (auto simp: extractSearchText_def skipTypes_def js_def Let_def)

lemma parsePaymentNotes_fields:
  assumes "pl \<in> set (parsePaymentNotes raw)"
  shows "lineType pl = identifyLineType (lineText pl)"
    and "searchText pl = extractSearchText (lineText pl)"
  using assms
  by (auto simp: parsePaymentNotes_def Let_def split: option.splits if_splits)

text \<open>
  Claim C10. For a line that \<open>parsePaymentNotes\<close> produces, \<open>shouldMatchLine\<close> is true exactly
  when the search text is present and at least 5 long; a line of one of the skipped types
  has no search text, so the list of skipped types decides nothing.
\<close>

theorem shouldMatchLine_iff_searchText:
  assumes "pl \<in> set (parsePaymentNotes raw)"
  shows "(shouldMatchLine pl \<longleftrightarrow> (\<exists>s. searchText pl = Some s \<and> 5 \<le> length s)) \<and>
         (lineType pl \<in> set skipTypes \<longrightarrow> searchText pl = None)"
proof -
  from parsePaymentNotes_fields [OF assms] skipped_type_has_no_searchText [of "lineText pl"]
  have skip: "lineType pl \<in> set skipTypes \<longrightarrow> searchText pl = None" by simp
  then have "shouldMatchLine pl \<longleftrightarrow> (\<exists>s. searchText pl = Some s \<and> 5 \<le> length s)"
    by (cases "searchText pl") (auto simp: shouldMatchLine_def)
  with skip show ?thesis by blast
qed

lemmas eval_notes = parsePaymentNotes_def mergeWrappedLines_def cr_to_lf_def extractMetadata_def
  trid_at_def amount_at_def date_at_def enumerate_eq_zip

lemma scenario_notes_parsed:
  "parsePaymentNotes (Some scenario_notes) =
     [\<lparr> lineNo = 1, lineText = js ''BO:219062889 BO1:ACME LLC BO2:123 MAIN ST'',
         lineType = js ''BO'',
         searchText = Some (js ''BO:219062889 BO1:ACME LLC BO2:123 MAIN ST''),
         metadata = \<lparr> transactionId = None, md_amount = None, md_date = Some (js ''21906288'') \<rparr> \<rparr>,
      \<lparr> lineNo = 2, lineText = js ''TRID:998877'', lineType = js ''TRID'', searchText = None,
         metadata = \<lparr> transactionId = Some (js ''998877''), md_amount = None, md_date = None \<rparr> \<rparr>]"
  by (simp add: scenario_notes_def eval_notes eval_parser)

theorem shouldMatchLine_iff_searchText_witness:
  "shouldMatchLine (parsePaymentNotes (Some scenario_notes) ! 0) \<and>
   \<not> shouldMatchLine (parsePaymentNotes (Some scenario_notes) ! 1) \<and>
   searchText (parsePaymentNotes (Some scenario_notes) ! 1) = None"
proof -
  let ?ls = "parsePaymentNotes (Some scenario_notes)"
  have mem: "?ls ! 0 \<in> set ?ls" "?ls ! 1 \<in> set ?ls"
    by (simp_all add: scenario_notes_parsed)
  have a: "\<exists>s. searchText (?ls ! 0) = Some s \<and> 5 \<le> length s"
    by (simp add: scenario_notes_parsed js_def)
  have b: "lineType (?ls ! 1) \<in> set skipTypes"
    by (simp add: scenario_notes_parsed skipTypes_def)
  from shouldMatchLine_iff_searchText [OF mem(1)] shouldMatchLine_iff_searchText [OF mem(2)] a b
  show ?thesis by simp
qed

text \<open>
  Claim C2. A sending-person line is classified \<open>SENDING\<close>, the key of its pattern, while the
  \<open>switch\<close> of \<open>extractSearchText\<close> asks for the label \<open>SENDING PERSON\<close>: the line gets no
  search text.
\<close>

theorem sending_line_has_no_searchText:
  "map (\<lambda>p. (lineType p, searchText p)) (parsePaymentNotes (Some (js ''SENDING PERSON: JOHN DOE'')))
     = [(js ''SENDING'', None)]"
  by (simp add: eval_notes eval_parser)

section \<open>Properties of the email searches\<close>

lemma calculateRelevanceScore_le: "calculateRelevanceScore lc e c a \<le> 100"
  by (simp add: calculateRelevanceScore_def Let_def)

lemma bonus_nonneg: "0 \<le> x \<Longrightarrow> 0 \<le> k \<Longrightarrow> 0 \<le> (if P then fl (x + k) else x)"
  by (simp add: fl_nonneg)

lemma calculateRelevanceScore_ge:
  assumes "similarity e = Some x" "0 \<le> x"
  shows "0 \<le> calculateRelevanceScore lc e c a"
proof -
  define sim where "sim = (case similarity e of None \<Rightarrow> 0 | Some x \<Rightarrow> x)"
  define s0 where "s0 = fl (0 + fl (sim * 50))"
  define s1 where "s1 = (if str_includes (lc (or_empty (subject e))) (lc c) then fl (s0 + 20) else s0)"
  define s2 where "s2 = (if str_includes (lc (or_empty (bodyPreview e))) (lc c) then fl (s1 + 10) else s1)"
  define s3 where "s3 = (if companies_match lc (extractedCompanies e) (lc c) then fl (s2 + 15) else s2)"
  define s4 where
    "s4 = (case a of
             None \<Rightarrow> s3
           | Some v \<Rightarrow>
               if v \<noteq> 0 then (if amounts_match (extractedAmounts e) v then fl (s3 + 20) else s3)
               else s3)"
  define s5 where
    "s5 = (if str_includes (lc (or_empty (fromName e))) (lc c) \<or>
              str_includes (lc (or_empty (fromAddress e))) (lc c)
           then fl (s4 + 10) else s4)"
  from assms have "0 \<le> sim" by (simp add: sim_def)
  then have "0 \<le> fl (sim * 50)" by (intro fl_nonneg) simp
  then have 0: "0 \<le> s0" unfolding s0_def by (intro fl_nonneg) simp
  then have 1: "0 \<le> s1" unfolding s1_def by (intro bonus_nonneg) simp_all
  then have 2: "0 \<le> s2" unfolding s2_def by (intro bonus_nonneg) simp_all
  then have 3: "0 \<le> s3" unfolding s3_def by (intro bonus_nonneg) simp_all
  then have 4: "0 \<le> s4" unfolding s4_def by (cases a) (simp_all add: fl_nonneg)
  then have 5: "0 \<le> s5" unfolding s5_def by (intro bonus_nonneg) simp_all
  have "calculateRelevanceScore lc e c a = min s5 100"
    unfolding calculateRelevanceScore_def Let_def s5_def s4_def s3_def s2_def s1_def s0_def
      sim_def by (rule refl)
  with 5 show ?thesis by simp
qed

lemma amount_bonus_range: "0 \<le> amount_bonus f s p a" "amount_bonus f s p a \<le> 50"
  by (simp_all add: amount_bonus_def Let_def)

lemma amount_part_range:
  "0 \<le> (case a of None \<Rightarrow> 0 | Some x \<Rightarrow> if x \<noteq> 0 then amount_bonus f s p x else 0)"
  "(case a of None \<Rightarrow> 0 | Some x \<Rightarrow> if x \<noteq> 0 then amount_bonus f s p x else 0) \<le> 50"
  by (cases a; simp add: amount_bonus_range)+

lemma calculateRelevance_range:
  "0 \<le> calculateRelevance lc f e c a" "calculateRelevance lc f e c a \<le> 160"
proof -
  define subj where "subj = lc (or_empty (subject e))"
  define preview where "preview = lc (or_empty (bodyPreview e))"
  define b1 :: real where "b1 = (if str_includes subj (lc c) then 50 else 0)"
  define b2 :: real where "b2 = (if str_includes preview (lc c) then 30 else 0)"
  define b3 :: real where
    "b3 = (case a of None \<Rightarrow> 0 | Some x \<Rightarrow> if x \<noteq> 0 then amount_bonus f subj preview x else 0)"
  define b4 :: real where "b4 = (if hasAttachments e = Some True then 10 else 0)"
  define b5 :: real where
    "b5 = (if str_includes (lc (or_empty (from_name e))) (lc c) \<or>
              str_includes (lc (or_empty (from_address e))) (lc c)
           then 20 else 0)"
  have r: "0 \<le> b1" "b1 \<le> 50" "0 \<le> b2" "b2 \<le> 30" "0 \<le> b4" "b4 \<le> 10" "0 \<le> b5" "b5 \<le> 20"
    by (simp_all add: b1_def b2_def b4_def b5_def)
  have r3: "0 \<le> b3" "b3 \<le> 50"
    unfolding b3_def by (rule amount_part_range)+
  have "calculateRelevance lc f e c a = b1 + b2 + b3 + b4 + b5"
    unfolding calculateRelevance_def Let_def b1_def b2_def b3_def b4_def b5_def subj_def
      preview_def by (rule refl)
  with r r3 show "0 \<le> calculateRelevance lc f e c a" "calculateRelevance lc f e c a \<le> 160"
    by linarith+
qed

lemma relevance_examples:
  "calculateRelevance ascii_lower num_str example_message (js ''ACME'') None = 110"
  "calculateRelevanceScore ascii_lower example_cached (js ''ACME'') None = - 25"
  by code_simp+

lemma ascii_text:
  "list_all (\<lambda>c. c < 128) (js ''ACME'')"
  "list_all (\<lambda>c. c < 128) (or_empty (subject example_message))"
  "list_all (\<lambda>c. c < 128) (or_empty (bodyPreview example_message))"
  "list_all (\<lambda>c. c < 128) (or_empty (from_name example_message))"
  "list_all (\<lambda>c. c < 128) (or_empty (from_address example_message))"
  "list_all (\<lambda>c. c < 128) (or_empty (subject example_cached))"
  "list_all (\<lambda>c. c < 128) (or_empty (bodyPreview example_cached))"
  "list_all (\<lambda>c. c < 128) (or_empty (fromName example_cached))"
  "list_all (\<lambda>c. c < 128) (or_empty (fromAddress example_cached))"
  by (simp_all add: example_message_def example_cached_def or_empty_def js_def)

text \<open>
  Claim C3. The score of the live-mailbox ranking is the plain sum of its bonuses and is not
  capped: a message that names the company in subject, body and sender and carries an
  attachment scores 110. The score of the cached-corpus ranking is capped at 100 but has no
  lower bound: a negative similarity gives a negative score. Both hold for every case
  mapping that lowers ASCII text as \<open>toLowerCase\<close> does.
\<close>

theorem relevance_leaves_range:
  assumes "\<And>s. list_all (\<lambda>c. c < 128) s \<Longrightarrow> lc s = ascii_lower s"
  shows "calculateRelevance lc num_str example_message (js ''ACME'') None = 110 \<and>
         calculateRelevanceScore lc example_cached (js ''ACME'') None = - 25"
proof -
  note h = ascii_text [THEN assms]
  have "calculateRelevance lc num_str example_message (js ''ACME'') None
          = calculateRelevance ascii_lower num_str example_message (js ''ACME'') None"
    unfolding calculateRelevance_def Let_def h by (rule refl)
  moreover have "calculateRelevanceScore lc example_cached (js ''ACME'') None
          = calculateRelevanceScore ascii_lower example_cached (js ''ACME'') None"
    unfolding calculateRelevanceScore_def Let_def h
    by (simp add: example_cached_def companies_match_def)
  ultimately show ?thesis by (simp add: relevance_examples)
qed

theorem relevance_leaves_range_witness:
  "calculateRelevance ascii_lower (\<lambda>x. []) example_message (js ''ACME'') None = 110 \<and>
   calculateRelevanceScore ascii_lower example_cached (js ''ACME'') None = - 25"
  by (rule relevance_leaves_range) simp

text \<open>
  Claim C8. With the company name absent or empty, both searches raise the error
  \<open>Company name is required for email search\<close> before anything else is looked at; no
  list is returned, whatever the other arguments and the backends.
\<close>

theorem missing_company_is_hard_error:
  assumes "falsy_str company"
  shows "searchCachedEmails lc num_str db company amt day before after
           = Inl (Error (js ''Company name is required for email search'')) \<and>
         searchInbox lc num_str mailbox company amt day before after
           = Inl (Error (js ''Company name is required for email search''))"
  using assms
  by (auto simp: falsy_str_def searchCachedEmails_def searchInbox_def split: option.splits)

theorem missing_company_is_hard_error_witness:
  "searchCachedEmails ascii_lower (\<lambda>x. [])
       \<lparr> embedding_of = (\<lambda>t. Inr (Some ())), similar_within = (\<lambda>v a b. Inr [example_cached]) \<rparr>
       (Some []) (Some 100) (Some 0) None None
     = Inl (Error (js ''Company name is required for email search'')) \<and>
   searchInbox ascii_lower (\<lambda>x. []) (\<lambda>q. Inr [example_message]) None (Some 100) (Some 0) None None
     = Inl (Error (js ''Company name is required for email search''))"
proof -
  have a: "falsy_str (Some [])" and b: "falsy_str None"
    by (simp_all add: falsy_str_def)
  show ?thesis
    by (rule conjI)
       (rule conjunct1 [OF missing_company_is_hard_error [OF a]],
        rule conjunct2 [OF missing_company_is_hard_error [OF b]])
qed

section \<open>Properties of the summarizer\<close>

lemmas eval_summary = eval_str lower_def ascii_lower_def label_match_def label_at_def
  dot_plus_def is_line_terminator_def cleanValue_def parseActionItems_def Let_def

text \<open>
  Claim C7, as stated, fails: on a summary without any of the five labels the \<open>notes\<close> field
  is absent; it is not the raw text.
\<close>

theorem no_labels_notes_counterexample:
  "example_summary \<noteq> [] \<and>
   label_match (js ''Cost Center'') example_summary = None \<and>
   label_match (js ''Company Code'') example_summary = None \<and>
   label_match (js ''GL Account'') example_summary = None \<and>
   label_match (js ''Invoice/Reference'') example_summary = None \<and>
   label_match (js ''Notes'') example_summary = None \<and>
   summary_notes (parseActionItems ascii_lower (Some example_summary)) \<noteq> Some example_summary"
  by (simp add: example_summary_def eval_summary)

text \<open>
  Claim C7, amended. For a non-empty summary in which none of the five label patterns
  matches, \<open>parseActionItems\<close> returns all five fields absent, the notes included.
\<close>

theorem no_labels_all_absent:
  assumes "s \<noteq> []"
    and "label_match (js ''Cost Center'') s = None"
    and "label_match (js ''Company Code'') s = None"
    and "label_match (js ''GL Account'') s = None"
    and "label_match (js ''Invoice/Reference'') s = None"
    and "label_match (js ''Notes'') s = None"
  shows "parseActionItems lc (Some s) =
           \<lparr> costCenter = None, companyCode = None, glAccount = None, invoice = None,
             summary_notes = None \<rparr>"
  using assms by (simp add: parseActionItems_def cleanValue_def)

theorem no_labels_all_absent_witness:
  "parseActionItems ascii_lower (Some example_summary) =
     \<lparr> costCenter = None, companyCode = None, glAccount = None, invoice = None,
       summary_notes = None \<rparr>"
proof -
  have "example_summary \<noteq> []"
    and "label_match (js ''Cost Center'') example_summary = None"
    and "label_match (js ''Company Code'') example_summary = None"
    and "label_match (js ''GL Account'') example_summary = None"
    and "label_match (js ''Invoice/Reference'') example_summary = None"
    and "label_match (js ''Notes'') example_summary = None"
    by (simp_all add: example_summary_def eval_summary)
  then show ?thesis by (rule no_labels_all_absent)
qed

section \<open>Properties of the company extractor\<close>

lemma ci_after_split:
  "ci_after p s = Some r \<Longrightarrow> \<exists>m. s = m @ r \<and> map upper m = map upper p"
proof (induction p s rule: ci_after.induct)
  case (1 s)
  then show ?case by simp
next
  case (2 p ps)
  then show ?case by simp
next
  case (3 p ps c cs)
  from "3.prems" have eq: "upper c = upper p" and rest: "ci_after ps cs = Some r"
    by (simp_all split: if_splits)
  from "3.IH" [OF eq rest] obtain m where "cs = m @ r" "map upper m = map upper ps" by blast
  with eq have "c # cs = (c # m) @ r \<and> map upper (c # m) = map upper (p # ps)" by simp
  then show ?case by blast
qed

lemma ws_colon_split:
  assumes "ws_colon s = Some r"
  shows "\<exists>w. s = w @ 58 # r \<and> list_all is_space w"
proof -
  from assms have "dropWhile is_space s = 58 # r"
    by (auto simp: ws_colon_def split: list.splits if_splits)
  then have "s = takeWhile is_space s @ 58 # r"
    by (metis takeWhile_dropWhile_id)
  moreover have "list_all is_space (takeWhile is_space s)"
    by (simp add: list_all_iff) (meson set_takeWhileD)
  ultimately show ?thesis by blast
qed

lemma lazy_dots_split:
  "lazy_dots s = Some g \<Longrightarrow>
     \<exists>post. s = g @ post \<and> g \<noteq> [] \<and> list_all (\<lambda>c. \<not> is_line_terminator c) g \<and> group_end post \<and>
            (\<forall>k. 0 < k \<and> k < length g \<longrightarrow> \<not> group_end (drop k s))"
proof (induction s arbitrary: g)
  case Nil
  then show ?case by simp
next
  case (Cons c cs)
  from Cons.prems have c: "\<not> is_line_terminator c" by (simp split: if_splits)
  show ?case
  proof (cases "group_end cs")
    case True
    with Cons.prems c have "g = [c]" by simp
    with True c show ?thesis by simp
  next
    case False
    with Cons.prems c obtain g' where g': "lazy_dots cs = Some g'" "g = c # g'"
      by (auto split: option.splits)
    from Cons.IH [OF g'(1)] obtain post where
      p: "cs = g' @ post" "g' \<noteq> []" "list_all (\<lambda>c. \<not> is_line_terminator c) g'" "group_end post"
         "\<forall>k. 0 < k \<and> k < length g' \<longrightarrow> \<not> group_end (drop k cs)"
      by blast
    have "\<not> group_end (drop k (c # cs))" if k: "0 < k" "k < length g" for k
    proof (cases k)
      case 0
      with k show ?thesis by simp
    next
      case (Suc j)
      show ?thesis
      proof (cases "j = 0")
        case True
        with Suc False show ?thesis by simp
      next
        case False
        with Suc k g'(2) p(5) show ?thesis by simp
      qed
    qed
    with p g'(2) c show ?thesis by auto
  qed
qed

lemma ws_lazy_dots_split:
  "ws_lazy_dots n s = Some g \<Longrightarrow> \<exists>j\<le>n. lazy_dots (drop j s) = Some g"
proof (induction n)
  case 0
  then show ?case by simp
next
  case (Suc n)
  show ?case
  proof (cases "lazy_dots (drop (Suc n) s)")
    case None
    with Suc.prems have "ws_lazy_dots n s = Some g" by simp
    from Suc.IH [OF this] show ?thesis using le_Suc_eq by blast
  next
    case (Some a)
    with Suc.prems have "a = g" by simp
    with Some show ?thesis by blast
  qed
qed

lemma leftmost_split:
  "leftmost f s = Some g \<Longrightarrow> \<exists>pre t. s = pre @ t \<and> f t = Some g"
proof (induction s)
  case Nil
  then show ?case by simp
next
  case (Cons c cs)
  show ?case
  proof (cases "f (c # cs)")
    case None
    with Cons.prems have "leftmost f cs = Some g" by simp
    from Cons.IH [OF this] obtain pre t where "cs = pre @ t" "f t = Some g" by blast
    then have "c # cs = (c # pre) @ t \<and> f t = Some g" by simp
    then show ?thesis by blast
  next
    case (Some a)
    with Cons.prems have "f (c # cs) = Some g" by simp
    then have "c # cs = [] @ (c # cs) \<and> f (c # cs) = Some g" by simp
    then show ?thesis by blast
  qed
qed

lemma take_spaces:
  assumes "j \<le> length (takeWhile is_space s)"
  shows "list_all is_space (take j s)"
proof -
  have "take j s = take j (takeWhile is_space s @ dropWhile is_space s)" by simp
  also have "\<dots> = take j (takeWhile is_space s)" using assms by (simp del: takeWhile_dropWhile_id)
  finally have "set (take j s) \<subseteq> set (takeWhile is_space s)" by (simp add: set_take_subset)
  then show ?thesis by (auto simp: list_all_iff dest: set_takeWhileD)
qed

lemma bo1Match_segment:
  assumes "bo1Match s = Some g"
  shows "\<exists>pre m w1 w2 post.
           s = pre @ m @ w1 @ [58] @ w2 @ g @ post \<and> map upper m = js ''BO1'' \<and>
           list_all is_space w1 \<and> list_all is_space w2 \<and> g \<noteq> [] \<and>
           list_all (\<lambda>c. \<not> is_line_terminator c) g \<and> group_end post \<and>
           (\<forall>k. 0 < k \<and> k < length g \<longrightarrow> \<not> group_end (drop k g @ post))"
proof -
  from assms leftmost_split [of bo1_at s g] obtain pre t where
    t: "s = pre @ t" "bo1_at t = Some g" by (auto simp: bo1Match_def)
  from t(2) obtain r rest where
    r: "ci_after (js ''BO1'') t = Some r" "ws_colon r = Some rest"
       "ws_lazy_dots (length (takeWhile is_space rest)) rest = Some g"
    by (auto simp: bo1_at_def split: option.splits)
  from ci_after_split [OF r(1)] obtain m where m: "t = m @ r" "map upper m = map upper (js ''BO1'')"
    by blast
  from ws_colon_split [OF r(2)] obtain w1 where w1: "r = w1 @ 58 # rest" "list_all is_space w1"
    by blast
  from ws_lazy_dots_split [OF r(3)] obtain j where
    j: "j \<le> length (takeWhile is_space rest)" "lazy_dots (drop j rest) = Some g" by blast
  from lazy_dots_split [OF j(2)] obtain post where
    p: "drop j rest = g @ post" "g \<noteq> []" "list_all (\<lambda>c. \<not> is_line_terminator c) g" "group_end post"
       "\<forall>k. 0 < k \<and> k < length g \<longrightarrow> \<not> group_end (drop k (drop j rest))"
    by blast
  have rest: "rest = take j rest @ g @ post"
    using p(1) by (metis append_take_drop_id)
  have up: "map upper (js ''BO1'') = js ''BO1''"
    by (simp add: js_def upper_def)
  have min: "\<forall>k. 0 < k \<and> k < length g \<longrightarrow> \<not> group_end (drop k g @ post)"
    using p(5) p(1) by simp
  have "s = pre @ m @ w1 @ [58] @ take j rest @ g @ post"
    using t(1) m(1) w1(1) rest by simp
  with m(2) up w1(2) take_spaces [OF j(1)] p(2,3,4) min show ?thesis
    by metis
qed

lemma bo23_colon_split:
  assumes "bo23_colon s = Some r"
  shows "\<exists>w m d w'. s = w @ m @ d # w' @ 58 # r \<and> list_all is_space w \<and>
           map upper m = js ''BO'' \<and> (d = 50 \<or> d = 51) \<and> list_all is_space w'"
proof -
  from assms obtain d rest where
    d: "ci_after (js ''BO'') (dropWhile is_space s) = Some (d # rest)" "d = 50 \<or> d = 51"
       "ws_colon rest = Some r"
    by (auto simp: bo23_colon_def split: option.splits list.splits if_splits)
  from ci_after_split [OF d(1)] obtain m where
    m: "dropWhile is_space s = m @ d # rest" "map upper m = map upper (js ''BO'')" by blast
  from ws_colon_split [OF d(3)] obtain w' where w': "rest = w' @ 58 # r" "list_all is_space w'"
    by blast
  have "s = takeWhile is_space s @ m @ d # w' @ 58 # r"
    using m(1) w'(1) by (metis takeWhile_dropWhile_id)
  moreover have "list_all is_space (takeWhile is_space s)"
    by (auto simp: list_all_iff dest: set_takeWhileD)
  moreover have "map upper (js ''BO'') = js ''BO''"
    by (simp add: js_def upper_def)
  ultimately show ?thesis using m(2) d(2) w'(2) by metis
qed

lemma spaces_takeWhile: "list_all is_space (takeWhile is_space s)"
  by (auto simp: list_all_iff dest: set_takeWhileD)

lemma trim_split: "\<exists>a b. s = a @ trim s @ b \<and> list_all is_space a \<and> list_all is_space b"
proof -
  let ?d = "dropWhile is_space s"
  have "rev ?d = takeWhile is_space (rev ?d) @ dropWhile is_space (rev ?d)" by simp
  then have "rev (rev ?d) = rev (takeWhile is_space (rev ?d) @ dropWhile is_space (rev ?d))"
    by (rule arg_cong)
  then have d: "?d = trim s @ rev (takeWhile is_space (rev ?d))"
    by (simp add: trim_def del: takeWhile_dropWhile_id)
  have "s = takeWhile is_space s @ ?d" by simp
  with d have "s = takeWhile is_space s @ trim s @ rev (takeWhile is_space (rev ?d))" by simp
  moreover have "list_all is_space (rev (takeWhile is_space (rev ?d)))"
    using spaces_takeWhile [of "rev ?d"] by (simp add: list_all_iff)
  ultimately show ?thesis using spaces_takeWhile [of s] by blast
qed

lemma dropWhile_id_hd: "xs = [] \<or> \<not> P (hd xs) \<Longrightarrow> dropWhile P xs = xs"
  by (cases xs) auto

lemma dropWhile_hd: "dropWhile P xs = [] \<or> \<not> P (hd (dropWhile P xs))"
  by (metis hd_dropWhile)

lemma trim_ends:
  "trim s = [] \<or> (\<not> is_space (hd (trim s)) \<and> \<not> is_space (last (trim s)))"
proof (cases "trim s = []")
  case True
  then show ?thesis by simp
next
  case False
  let ?d = "dropWhile is_space s"
  let ?e = "dropWhile is_space (rev ?d)"
  have t: "trim s = rev ?e" by (simp add: trim_def)
  with False have e: "?e \<noteq> []" by simp
  with dropWhile_hd [of is_space "rev ?d"] have "\<not> is_space (hd ?e)" by blast
  with e t have l: "\<not> is_space (last (trim s))" by (simp add: last_rev)
  have dn: "?d \<noteq> []"
  proof
    assume a: "?d = []"
    have "?e = []" unfolding a by simp
    with e show False by contradiction
  qed
  with dropWhile_hd [of is_space s] have hd: "\<not> is_space (hd ?d)" by blast
  from trim_split [of ?d] obtain a b where
    ab: "?d = a @ trim ?d @ b" "list_all is_space a" by blast
  have "trim ?d = trim s" by (simp add: trim_def)
  with ab have d: "?d = a @ trim s @ b" by simp
  have "a = []"
  proof (rule ccontr)
    assume "a \<noteq> []"
    with d have "hd ?d = hd a" by (metis hd_append2)
    with ab(2) \<open>a \<noteq> []\<close> hd show False by (cases a) auto
  qed
  with d False have "hd ?d = hd (trim s)" by (metis append_Nil hd_append2)
  with hd l show ?thesis by simp
qed

lemma trim_id: "t = [] \<or> (\<not> is_space (hd t) \<and> \<not> is_space (last t)) \<Longrightarrow> trim t = t"
proof (cases "t = []")
  case True
  then show ?thesis by (simp add: trim_def)
next
  case False
  assume "t = [] \<or> (\<not> is_space (hd t) \<and> \<not> is_space (last t))"
  with False have h: "\<not> is_space (hd t)" "\<not> is_space (last t)" by simp_all
  from h(1) have "dropWhile is_space t = t" by (simp add: dropWhile_id_hd)
  moreover from h(2) False have "dropWhile is_space (rev t) = rev t"
    by (simp add: dropWhile_id_hd hd_rev)
  ultimately show ?thesis by (simp add: trim_def)
qed

lemma trim_trim: "trim (trim s) = trim s"
  by (rule trim_id) (rule trim_ends)

lemma trim_dropWhile: "trim (dropWhile is_space s) = trim s"
  by (simp add: trim_def)

lemma trim_head_split:
  assumes "g \<noteq> []" "\<not> is_space (hd g)"
  shows "\<exists>b. g = trim g @ b \<and> list_all is_space b"
proof -
  from trim_split [of g] obtain a b where
    ab: "g = a @ trim g @ b" "list_all is_space a" "list_all is_space b" by blast
  have "a = []"
  proof (rule ccontr)
    assume "a \<noteq> []"
    with ab(1) have "hd g = hd a" by (metis hd_append2)
    with ab(2) \<open>a \<noteq> []\<close> assms(2) show False by (cases a) auto
  qed
  with ab show ?thesis by auto
qed

lemma ci_after_append: "map upper m = map upper p \<Longrightarrow> ci_after p (m @ r) = Some r"
proof (induction p arbitrary: m)
  case Nil
  then show ?case by simp
next
  case (Cons a p)
  then obtain c cs where "m = c # cs" by (cases m) auto
  with Cons show ?case by simp
qed

lemma upper_js: "map upper (js ''BO'') = js ''BO''" "map upper (js ''BO1'') = js ''BO1''"
  by (simp_all add: js_def upper_def)

lemma upper_not_space: "upper c = 66 \<Longrightarrow> \<not> is_space c"
  by (auto simp: upper_def is_space_def split: if_splits)

lemma ws_colon_append: "list_all is_space w \<Longrightarrow> ws_colon (w @ 58 # r) = Some r"
proof -
  assume "list_all is_space w"
  then have "dropWhile is_space (w @ 58 # r) = dropWhile is_space (58 # r)"
    by (intro dropWhile_append2) (simp add: list_all_iff)
  then show ?thesis by (simp add: ws_colon_def is_space_def)
qed

lemma spec_bo_marker_iff: "spec_bo_marker s \<longleftrightarrow> bo23_colon s \<noteq> None"
proof
  assume "spec_bo_marker s"
  then obtain w mk d w' rest where
    s: "s = w @ mk @ d # w' @ 58 # rest" "list_all is_space w" "map upper mk = js ''BO''"
       "d = 50 \<or> d = 51" "list_all is_space w'"
    by (auto simp: spec_bo_marker_def)
  from s(3) have "length (map upper mk) = length (js ''BO'')" by (rule arg_cong)
  then have "length mk = Suc (Suc 0)" by (simp add: js_def)
  then obtain b o' where mk0: "mk = [b, o']" by (auto simp: length_Suc_conv)
  with s(3) have "upper b = 66" by (simp add: js_def)
  note mk = mk0 this
  have "dropWhile is_space s = dropWhile is_space (mk @ d # w' @ 58 # rest)"
    unfolding s(1) using s(2) by (intro dropWhile_append2) (simp add: list_all_iff)
  also have "\<dots> = mk @ d # w' @ 58 # rest"
    using mk upper_not_space by simp
  finally have "ci_after (js ''BO'') (dropWhile is_space s) = Some (d # w' @ 58 # rest)"
    using ci_after_append [of mk "js ''BO''"] s(3) upper_js by simp
  with s(4) ws_colon_append [OF s(5)] show "bo23_colon s \<noteq> None"
    by (auto simp: bo23_colon_def)
next
  assume "bo23_colon s \<noteq> None"
  then obtain r where "bo23_colon s = Some r" by auto
  from bo23_colon_split [OF this] show "spec_bo_marker s"
    unfolding spec_bo_marker_def by blast
qed

lemma spec_bo_marker_append: "spec_bo_marker s \<Longrightarrow> spec_bo_marker (s @ x)"
proof -
  assume "spec_bo_marker s"
  then obtain w mk d w' rest where
    s: "s = w @ mk @ d # w' @ 58 # rest" "list_all is_space w" "map upper mk = js ''BO''"
       "d = 50 \<or> d = 51" "list_all is_space w'"
    by (auto simp: spec_bo_marker_def)
  from s(1) have "s @ x = w @ mk @ d # w' @ 58 # (rest @ x)" by simp
  with s(2-5) show ?thesis unfolding spec_bo_marker_def by blast
qed

lemma spec_bo_marker_spaces: "list_all is_space b \<Longrightarrow> spec_bo_marker s \<Longrightarrow> spec_bo_marker (b @ s)"
proof -
  assume b: "list_all is_space b" and "spec_bo_marker s"
  then obtain w mk d w' rest where
    s: "s = w @ mk @ d # w' @ 58 # rest" "list_all is_space w" "map upper mk = js ''BO''"
       "d = 50 \<or> d = 51" "list_all is_space w'"
    by (auto simp: spec_bo_marker_def)
  from s(1) have "b @ s = (b @ w) @ mk @ d # w' @ 58 # rest" by simp
  moreover from b s(2) have "list_all is_space (b @ w)" by simp
  ultimately show ?thesis using s(3-5) unfolding spec_bo_marker_def by blast
qed

lemma spec_bo_marker_Nil: "\<not> spec_bo_marker []"
  by (simp add: spec_bo_marker_def)

lemma group_end_iff: "group_end s \<longleftrightarrow> s = [] \<or> spec_bo_marker s"
  by (auto simp: group_end_def spec_bo_marker_iff split: option.splits)

lemma bo23_tail_marker: "bo23_tail s \<Longrightarrow> spec_bo_marker s"
  by (auto simp: bo23_tail_def spec_bo_marker_iff split: option.splits)

lemma marker_bo23_tail:
  assumes "spec_bo_marker s" "list_all (\<lambda>c. \<not> is_line_terminator c) s"
  shows "bo23_tail s"
proof -
  from assms(1) obtain r where r: "bo23_colon s = Some r" by (auto simp: spec_bo_marker_iff)
  from bo23_colon_split [OF r] obtain w m d w' where "s = w @ m @ d # w' @ 58 # r" by blast
  then have "s = (w @ m @ d # w' @ [58]) @ r" by simp
  then have "set r \<subseteq> set s" by (simp only: set_append) blast
  with assms(2) have "list_all (\<lambda>c. \<not> is_line_terminator c) r" by (auto simp: list_all_iff)
  with r show ?thesis by (simp add: bo23_tail_def)
qed

lemma strip_bo23_tail_id: "\<forall>k. \<not> spec_bo_marker (drop k t) \<Longrightarrow> strip_bo23_tail t = t"
proof (induction t)
  case Nil
  then show ?case by simp
next
  case (Cons c cs)
  from Cons.prems [rule_format, of 0] have "\<not> bo23_tail (c # cs)"
    using bo23_tail_marker by auto
  moreover have "\<forall>k. \<not> spec_bo_marker (drop k cs)"
    using Cons.prems [rule_format, of "Suc k" for k] by simp
  ultimately show ?case using Cons.IH by simp
qed

lemma digit_not_space: "is_space c \<Longrightarrow> \<not> is_digit c"
  by (auto simp: is_space_def is_digit_def)

lemma colon_no_digit: "\<not> is_digit 58"
  by (simp add: is_digit_def)

lemma spec_bo_prefix_iff:
  "spec_bo_prefix t rest \<longleftrightarrow>
     (\<exists>r. ci_after (js ''BO'') t = Some r \<and> takeWhile is_digit r \<noteq> [] \<and>
          ws_colon (dropWhile is_digit r) = Some rest)"
proof
  assume "spec_bo_prefix t rest"
  then obtain mk ds w where
    t: "t = mk @ ds @ w @ 58 # rest" "map upper mk = js ''BO''" "ds \<noteq> []"
       "list_all is_digit ds" "list_all is_space w"
    by (auto simp: spec_bo_prefix_def)
  from t(1,2) have c: "ci_after (js ''BO'') t = Some (ds @ w @ 58 # rest)"
    using ci_after_append [of mk "js ''BO''"] upper_js by simp
  have nd: "takeWhile is_digit (w @ 58 # rest) = []"
    using t(5) by (cases w) (auto simp: digit_not_space colon_no_digit)
  have tw: "takeWhile is_digit (ds @ w @ 58 # rest) = ds"
    using t(4) nd by (simp add: takeWhile_append2 list_all_iff)
  have dn: "dropWhile is_digit (w @ 58 # rest) = w @ 58 # rest"
    using t(5) by (cases w) (auto simp: digit_not_space colon_no_digit)
  have dw: "dropWhile is_digit (ds @ w @ 58 # rest) = w @ 58 # rest"
    using t(4) dn by (simp add: dropWhile_append2 list_all_iff)
  from c tw dw t(3) ws_colon_append [OF t(5)]
  show "\<exists>r. ci_after (js ''BO'') t = Some r \<and> takeWhile is_digit r \<noteq> [] \<and>
          ws_colon (dropWhile is_digit r) = Some rest"
    by simp
next
  assume "\<exists>r. ci_after (js ''BO'') t = Some r \<and> takeWhile is_digit r \<noteq> [] \<and>
          ws_colon (dropWhile is_digit r) = Some rest"
  then obtain r where
    r: "ci_after (js ''BO'') t = Some r" "takeWhile is_digit r \<noteq> []"
       "ws_colon (dropWhile is_digit r) = Some rest" by blast
  from ci_after_split [OF r(1)] obtain mk where mk: "t = mk @ r" "map upper mk = js ''BO''"
    using upper_js by auto
  from ws_colon_split [OF r(3)] obtain w where
    w: "dropWhile is_digit r = w @ 58 # rest" "list_all is_space w" by blast
  have "r = takeWhile is_digit r @ dropWhile is_digit r" by simp
  with w(1) mk(1) have "t = mk @ takeWhile is_digit r @ w @ 58 # rest" by simp
  moreover have "list_all is_digit (takeWhile is_digit r)"
    by (auto simp: list_all_iff dest: set_takeWhileD)
  ultimately show "spec_bo_prefix t rest"
    unfolding spec_bo_prefix_def using mk(2) r(2) w(2) by blast
qed

lemma strip_bo_prefix_spec:
  assumes "spec_bo_prefix t rest"
  shows "strip_bo_prefix t = dropWhile is_space rest"
proof -
  from assms obtain r where
    r: "ci_after (js ''BO'') t = Some r" "takeWhile is_digit r \<noteq> []"
       "ws_colon (dropWhile is_digit r) = Some rest"
    unfolding spec_bo_prefix_iff by blast
  from r(2) obtain d ds where "takeWhile is_digit r = d # ds" by (cases "takeWhile is_digit r") auto
  with r(1,3) show ?thesis by (simp add: strip_bo_prefix_def)
qed

lemma strip_bo_prefix_id:
  assumes "\<forall>rest. \<not> spec_bo_prefix t rest"
  shows "strip_bo_prefix t = t"
proof (cases "ci_after (js ''BO'') t")
  case None
  then show ?thesis by (simp add: strip_bo_prefix_def)
next
  case (Some r)
  show ?thesis
  proof (cases "takeWhile is_digit r")
    case Nil
    with Some show ?thesis by (simp add: strip_bo_prefix_def)
  next
    case (Cons d ds)
    have "ws_colon (dropWhile is_digit r) = None"
    proof (rule ccontr)
      assume "ws_colon (dropWhile is_digit r) \<noteq> None"
      then obtain rest where "ws_colon (dropWhile is_digit r) = Some rest" by auto
      with Some Cons have "spec_bo_prefix t rest" unfolding spec_bo_prefix_iff by simp
      with assms show False by blast
    qed
    with Some Cons show ?thesis by (simp add: strip_bo_prefix_def)
  qed
qed

lemma spec_cleaned_code: "trim t = t \<Longrightarrow> spec_cleaned t (trim (strip_bo_prefix t))"
proof -
  assume t: "trim t = t"
  show ?thesis
  proof (cases "\<exists>rest. spec_bo_prefix t rest")
    case True
    then obtain rest where r: "spec_bo_prefix t rest" by blast
    from strip_bo_prefix_spec [OF r] have "trim (strip_bo_prefix t) = trim rest"
      by (simp add: trim_dropWhile)
    with r show ?thesis unfolding spec_cleaned_def by blast
  next
    case False
    with strip_bo_prefix_id [of t] t show ?thesis unfolding spec_cleaned_def by simp
  qed
qed

lemma spec_cleaned_unique:
  assumes "trim t = t" "spec_cleaned t n"
  shows "n = trim (strip_bo_prefix t)"
proof -
  from assms(2) consider rest where "spec_bo_prefix t rest" "n = trim rest"
    | "\<forall>rest. \<not> spec_bo_prefix t rest" "n = t"
    unfolding spec_cleaned_def by blast
  then show ?thesis
  proof cases
    case 1
    from strip_bo_prefix_spec [OF 1(1)] 1(2) show ?thesis by (simp add: trim_dropWhile)
  next
    case 2
    from strip_bo_prefix_id [OF 2(1)] 2(2) assms(1) show ?thesis by simp
  qed
qed

lemma find_bo_first:
  "find_bo ls = Inr (Some l) \<Longrightarrow>
     \<exists>i tx. i < length ls \<and> l = Object (Str (js ''BO'')) tx \<and> ls ! i = l \<and>
       (\<forall>j<i. \<exists>ty tx'. ls ! j = Object ty tx' \<and> ty \<noteq> Str (js ''BO''))"
proof (induction ls rule: find_bo.induct)
  case 1
  then show ?case by simp
next
  case (2 ls)
  then show ?case by simp
next
  case (3 ty tx ls)
  show ?case
  proof (cases "ty = Str (js ''BO'')")
    case True
    with "3.prems" have "l = Object (Str (js ''BO'')) tx" by simp
    with True have "0 < length (Object ty tx # ls) \<and> l = Object (Str (js ''BO'')) tx \<and>
        (Object ty tx # ls) ! 0 = l \<and>
        (\<forall>j<0. \<exists>ty' tx'. (Object ty tx # ls) ! j = Object ty' tx' \<and> ty' \<noteq> Str (js ''BO''))"
      by simp
    then show ?thesis by blast
  next
    case False
    with "3.prems" have "find_bo ls = Inr (Some l)" by simp
    from "3.IH" [OF False this] obtain i tx' where
      i: "i < length ls" "l = Object (Str (js ''BO'')) tx'" "ls ! i = l"
         "\<forall>j<i. \<exists>ty tx'. ls ! j = Object ty tx' \<and> ty \<noteq> Str (js ''BO'')"
      by blast
    have "\<exists>ty' tx''. (Object ty tx # ls) ! j = Object ty' tx'' \<and> ty' \<noteq> Str (js ''BO'')"
      if "j < Suc i" for j
    proof (cases j)
      case 0
      with False show ?thesis by simp
    next
      case (Suc j')
      with that i(4) show ?thesis by simp
    qed
    with i(1,2,3) have "Suc i < length (Object ty tx # ls) \<and> l = Object (Str (js ''BO'')) tx' \<and>
        (Object ty tx # ls) ! Suc i = l \<and>
        (\<forall>j<Suc i. \<exists>ty' tx''. (Object ty tx # ls) ! j = Object ty' tx'' \<and> ty' \<noteq> Str (js ''BO''))"
      by simp
    then show ?thesis by blast
  qed
qed

lemma find_bo_spec:
  "spec_first_bo ls i s \<Longrightarrow> find_bo ls = Inr (Some (Object (Str (js ''BO'')) (Str s)))"
proof (induction ls arbitrary: i)
  case Nil
  then show ?case by (simp add: spec_first_bo_def)
next
  case (Cons l ls)
  show ?case
  proof (cases i)
    case 0
    with Cons.prems show ?thesis by (simp add: spec_first_bo_def)
  next
    case (Suc j)
    from Cons.prems Suc have a: "j < length ls" "ls ! j = Object (Str (js ''BO'')) (Str s)"
      and all: "\<forall>k<Suc j. \<exists>ty tx. (l # ls) ! k = Object ty tx \<and> ty \<noteq> Str (js ''BO'')"
      by (simp_all add: spec_first_bo_def)
    from all [rule_format, of 0] obtain ty tx where l: "l = Object ty tx" "ty \<noteq> Str (js ''BO'')"
      by auto
    have "\<forall>k<j. \<exists>ty tx. ls ! k = Object ty tx \<and> ty \<noteq> Str (js ''BO'')"
      using all [rule_format, of "Suc k" for k] by simp
    with a have "spec_first_bo ls j s" by (simp add: spec_first_bo_def)
    from Cons.IH [OF this] l show ?thesis by simp
  qed
qed

lemma bo1Match_spec:
  assumes "bo1Match s = Some g"
  shows "\<exists>p post. spec_bo1_segment s p g post"
proof -
  from bo1Match_segment [OF assms] obtain pre m w1 w2 post where
    seg: "s = pre @ m @ w1 @ [58] @ w2 @ g @ post" "map upper m = js ''BO1''"
         "list_all is_space w1" "list_all is_space w2" "g \<noteq> []"
         "list_all (\<lambda>c. \<not> is_line_terminator c) g" "group_end post"
         "\<forall>k. 0 < k \<and> k < length g \<longrightarrow> \<not> group_end (drop k g @ post)"
    by blast
  from seg(1) have "s = pre @ m @ w1 @ 58 # w2 @ g @ post" by simp
  with seg(2,3,4) have shape: "\<exists>mk w1 w2. s = pre @ mk @ w1 @ 58 # w2 @ g @ post \<and>
        map upper mk = js ''BO1'' \<and> list_all is_space w1 \<and> list_all is_space w2"
    by blast
  from seg(7) have e: "post = [] \<or> spec_bo_marker post" by (simp add: group_end_iff)
  from seg(8) have "\<forall>k. 0 < k \<and> k < length g \<longrightarrow> \<not> spec_bo_marker (drop k g @ post)"
    by (simp add: group_end_iff)
  with shape seg(5,6) e have "spec_bo1_segment s pre g post" unfolding spec_bo1_segment_def by blast
  then show ?thesis by blast
qed

lemma lazy_dots_complete:
  "g \<noteq> [] \<Longrightarrow> list_all (\<lambda>c. \<not> is_line_terminator c) g \<Longrightarrow> group_end post \<Longrightarrow>
   (\<forall>k. 0 < k \<and> k < length g \<longrightarrow> \<not> group_end (drop k g @ post)) \<Longrightarrow>
   lazy_dots (g @ post) = Some g"
proof (induction g)
  case Nil
  then show ?case by simp
next
  case (Cons c g')
  from Cons.prems(2) have c: "\<not> is_line_terminator c" and g': "list_all (\<lambda>c. \<not> is_line_terminator c) g'"
    by simp_all
  show ?case
  proof (cases "g' = []")
    case True
    with c Cons.prems(3) show ?thesis by simp
  next
    case False
    from Cons.prems(4) [rule_format, of 1] False have n: "\<not> group_end (g' @ post)" by simp
    have "\<forall>k. 0 < k \<and> k < length g' \<longrightarrow> \<not> group_end (drop k g' @ post)"
      using Cons.prems(4) [rule_format, of "Suc k" for k] by simp
    from Cons.IH [OF False g' Cons.prems(3) this] c n show ?thesis by simp
  qed
qed

lemma ws_lazy_dots_first: "lazy_dots (drop n s) = Some g \<Longrightarrow> ws_lazy_dots n s = Some g"
  by (cases n) simp_all

lemma leftmost_here: "f t = Some g \<Longrightarrow> leftmost f t = Some g"
  by (cases t) simp_all

lemma leftmost_skip:
  "(\<forall>k<length p. f (drop k (p @ t)) = None) \<Longrightarrow> f t = Some g \<Longrightarrow> leftmost f (p @ t) = Some g"
proof (induction p)
  case Nil
  then show ?case by (simp add: leftmost_here)
next
  case (Cons c p)
  from Cons.prems(1) [rule_format, of 0] have n: "f (c # p @ t) = None" by simp
  have "\<forall>k<length p. f (drop k (p @ t)) = None"
    using Cons.prems(1) [rule_format, of "Suc k" for k] by simp
  from Cons.IH [OF this Cons.prems(2)] n show ?case by simp
qed

lemma no_bo1:
  assumes "map upper (take 3 t) \<noteq> js ''BO1''"
  shows "bo1_at t = None"
proof -
  have "ci_after (js ''BO1'') t = None"
  proof (rule ccontr)
    assume "ci_after (js ''BO1'') t \<noteq> None"
    then obtain r where "ci_after (js ''BO1'') t = Some r" by auto
    from ci_after_split [OF this] obtain m where m: "t = m @ r" "map upper m = js ''BO1''"
      using upper_js by auto
    from m(2) have "length (map upper m) = length (js ''BO1'')" by (rule arg_cong)
    then have "length m = 3" by (simp add: js_def)
    with m(1) have "take 3 t = m" by simp
    with m(2) assms show False by simp
  qed
  then show ?thesis by (simp add: bo1_at_def)
qed

lemma takeWhile_spaces_then:
  assumes "list_all is_space w" "g \<noteq> []" "\<not> is_space (hd g)"
  shows "takeWhile is_space (w @ g @ post) = w"
proof -
  from assms(2,3) have "takeWhile is_space (g @ post) = []" by (cases g) auto
  with assms(1) show ?thesis by (simp add: takeWhile_append2 list_all_iff)
qed

lemma bo1Match_complete:
  assumes "spec_first_bo1 s p" "spec_bo1_segment s p g post" "\<not> is_space (hd g)"
  shows "bo1Match s = Some g"
proof -
  from assms(2) obtain mk w1 w2 where
    seg: "s = p @ mk @ w1 @ 58 # w2 @ g @ post" "map upper mk = js ''BO1''"
         "list_all is_space w1" "list_all is_space w2" "g \<noteq> []"
         "list_all (\<lambda>c. \<not> is_line_terminator c) g" "post = [] \<or> spec_bo_marker post"
         "\<forall>k. 0 < k \<and> k < length g \<longrightarrow> \<not> spec_bo_marker (drop k g @ post)"
    unfolding spec_bo1_segment_def by blast
  let ?t = "mk @ w1 @ 58 # w2 @ g @ post"
  from seg(7) have e: "group_end post" by (simp add: group_end_iff)
  from seg(8) have m: "\<forall>k. 0 < k \<and> k < length g \<longrightarrow> \<not> group_end (drop k g @ post)"
    by (simp add: group_end_iff)
  have ld: "lazy_dots (g @ post) = Some g"
    by (rule lazy_dots_complete [OF seg(5,6) e m])
  have c: "ci_after (js ''BO1'') ?t = Some (w1 @ 58 # w2 @ g @ post)"
    using ci_after_append [of mk "js ''BO1''"] seg(2) upper_js by simp
  have w: "ws_colon (w1 @ 58 # w2 @ g @ post) = Some (w2 @ g @ post)"
    by (rule ws_colon_append [OF seg(3)])
  have tw: "takeWhile is_space (w2 @ g @ post) = w2"
    by (rule takeWhile_spaces_then [OF seg(4,5) assms(3)])
  have "ws_lazy_dots (length w2) (w2 @ g @ post) = Some g"
    by (rule ws_lazy_dots_first) (simp add: ld)
  with c w tw have here: "bo1_at ?t = Some g" by (simp add: bo1_at_def)
  have "\<forall>k<length p. bo1_at (drop k (p @ ?t)) = None"
    using assms(1) seg(1) no_bo1 by (simp add: spec_first_bo1_def)
  from leftmost_skip [OF this here] seg(1) show ?thesis by (simp add: bo1Match_def)
qed

lemma marker_inside:
  assumes min: "\<forall>k. 0 < k \<and> k < length g \<longrightarrow> \<not> spec_bo_marker (drop k g @ post)"
    and g: "g = a @ t @ b" and k: "a \<noteq> [] \<or> 0 < k"
  shows "\<not> spec_bo_marker (drop k t)"
proof
  assume mk: "spec_bo_marker (drop k t)"
  then have "drop k t \<noteq> []" using spec_bo_marker_Nil by auto
  then have kt: "k < length t" by simp
  have "drop (length a + k) g = drop k t @ b" using g kt by simp
  then have "drop (length a + k) g @ post = drop k t @ (b @ post)" by simp
  with spec_bo_marker_append [OF mk] have "spec_bo_marker (drop (length a + k) g @ post)" by simp
  moreover from k have "0 < length a + k" by auto
  moreover from kt g have "length a + k < length g" by simp
  ultimately show False using min by blast
qed

lemma no_marker_sound:
  assumes min: "\<forall>k. 0 < k \<and> k < length g \<longrightarrow> \<not> spec_bo_marker (drop k g @ post)"
    and lt: "list_all (\<lambda>c. \<not> is_line_terminator c) g"
    and ne: "clean_bo1 g \<noteq> []"
  shows "\<forall>k. \<not> spec_bo_marker (drop k (trim g))"
proof
  fix k
  from trim_split [of g] obtain a b where g: "g = a @ trim g @ b" by blast
  show "\<not> spec_bo_marker (drop k (trim g))"
  proof (cases "a \<noteq> [] \<or> 0 < k")
    case True
    from marker_inside [OF min g True] show ?thesis .
  next
    case False
    then have k: "k = 0" by simp
    show ?thesis
    proof
      assume "spec_bo_marker (drop k (trim g))"
      with k have mt: "spec_bo_marker (trim g)" by simp
      have "set (trim g) \<subseteq> set g" using g by (metis Un_upper1 Un_upper2 set_append subset_trans)
      with lt have "list_all (\<lambda>c. \<not> is_line_terminator c) (trim g)" by (auto simp: list_all_iff)
      from marker_bo23_tail [OF mt this] have "strip_bo23_tail (trim g) = []"
        by (cases "trim g") simp_all
      then have "clean_bo1 g = []" by (simp add: clean_bo1_def strip_bo_prefix_def trim_def js_def)
      with ne show False by contradiction
    qed
  qed
qed

lemma no_marker_complete:
  assumes min: "\<forall>k. 0 < k \<and> k < length g \<longrightarrow> \<not> spec_bo_marker (drop k g @ post)"
    and g: "g \<noteq> []" "\<not> is_space (hd g)" and t: "\<not> spec_bo_marker (trim g)"
  shows "\<forall>k. \<not> spec_bo_marker (drop k (trim g))"
proof
  fix k
  from trim_head_split [OF g] obtain b where b: "g = [] @ trim g @ b" by auto
  show "\<not> spec_bo_marker (drop k (trim g))"
  proof (cases "0 < k")
    case True
    then have "[] \<noteq> ([]::jsstring) \<or> 0 < k" by simp
    from marker_inside [OF min b this] show ?thesis .
  next
    case False
    with t show ?thesis by simp
  qed
qed

lemma clean_bo1_spec:
  assumes "\<forall>k. \<not> spec_bo_marker (drop k (trim g))"
  shows "clean_bo1 g = trim (strip_bo_prefix (trim g))"
  using strip_bo23_tail_id [OF assms] by (simp add: clean_bo1_def)


lemma extractCompanyName_returns: "\<exists>res. extractCompanyName ls amt = Inr res"
  by (simp add: extractCompanyName_def split: option.splits sum.splits)

lemma extractCompanyName_sound:
  assumes "extractCompanyName ls amt = Inr (Some r)"
  shows "\<exists>lines i s g. ls = Some lines \<and> spec_first_bo lines i s \<and> bo1Match s = Some g \<and>
           companyName r = clean_bo1 g \<and> 2 \<le> length (companyName r) \<and> source r = BO1 \<and>
           confidence_pct r = 95 \<and> amount r = amt \<and> fullLine r = s"
proof -
  from assms obtain lines where
    l: "ls = Some lines" "extractCompanyName_try lines amt = Inr (Some r)"
    by (auto simp: extractCompanyName_def split: option.splits if_splits sum.splits)
  from l(2) obtain bo where bo: "find_bo lines = Inr (Some bo)"
    by (auto simp: extractCompanyName_try_def split: sum.splits option.splits)
  from find_bo_first [OF bo] obtain i tx where
    i: "i < length lines" "bo = Object (Str (js ''BO'')) tx" "lines ! i = bo"
       "\<forall>j<i. \<exists>ty tx'. lines ! j = Object ty tx' \<and> ty \<noteq> Str (js ''BO'')"
    by blast
  from l(2) bo i(2) obtain s where s: "tx = Str s"
    by (cases tx) (auto simp: extractCompanyName_try_def)
  from l(2) bo i(2) s obtain g where g: "bo1Match s = Some g"
    by (auto simp: extractCompanyName_try_def split: if_splits option.splits)
  from l(2) bo i(2) s g have
    r: "r = \<lparr> companyName = clean_bo1 g, source = BO1, confidence_pct = 95, amount = amt,
              fullLine = s \<rparr>" "2 \<le> length (clean_bo1 g)"
    by (auto simp: extractCompanyName_try_def Let_def split: if_splits)
  from i s have "spec_first_bo lines i s" by (simp add: spec_first_bo_def)
  with l(1) g r show ?thesis
    by (intro exI [of _ lines] exI [of _ i] exI [of _ s] exI [of _ g]) simp
qed

lemma extractCompanyName_complete:
  assumes fb: "spec_first_bo pls i s" and f1: "spec_first_bo1 s p"
    and seg: "spec_bo1_segment s p g post" and hd: "\<not> is_space (hd g)"
    and nm: "\<not> spec_bo_marker (trim g)" and cl: "spec_cleaned (trim g) n"
  shows "extractCompanyName (Some pls) amt =
           Inr (if length n < 2 then None
                else Some \<lparr> companyName = n, source = BO1, confidence_pct = 95, amount = amt,
                            fullLine = s \<rparr>)"
proof -
  from fb have ne: "pls \<noteq> []" by (auto simp: spec_first_bo_def)
  from seg have g: "g \<noteq> []"
    and min: "\<forall>k. 0 < k \<and> k < length g \<longrightarrow> \<not> spec_bo_marker (drop k g @ post)"
    and sh: "\<exists>mk w1 w2. s = p @ mk @ w1 @ 58 # w2 @ g @ post"
    unfolding spec_bo1_segment_def by blast+
  from sh g have sne: "s \<noteq> []" by auto
  have m: "bo1Match s = Some g" by (rule bo1Match_complete [OF f1 seg hd])
  have "clean_bo1 g = trim (strip_bo_prefix (trim g))"
    by (rule clean_bo1_spec [OF no_marker_complete [OF min g hd nm]])
  also have "\<dots> = n" using spec_cleaned_unique [OF trim_trim cl] by simp
  finally have c: "clean_bo1 g = n" .
  have t: "extractCompanyName_try pls amt =
           Inr (if length n < 2 then None
                else Some \<lparr> companyName = n, source = BO1, confidence_pct = 95, amount = amt,
                            fullLine = s \<rparr>)"
    using find_bo_spec [OF fb] sne m c by (auto simp: extractCompanyName_try_def Let_def)
  from ne show ?thesis by (simp add: extractCompanyName_def t)
qed

text \<open>
  Claim C6. \<open>extractCompanyName\<close> never raises: an error inside it, as on a \<open>null\<close> entry or a
  line text that is no string, is caught and gives \<open>null\<close>. A result comes from the first
  entry of type \<open>BO\<close>, whose text \<open>s\<close> holds a substring \<open>g\<close> between a \<open>BO1:\<close> marker and the
  next \<open>BO2:\<close>/\<open>BO3:\<close> marker or the end of the line; the trimmed \<open>g\<close> holds no such marker,
  and the name is the trimmed \<open>g\<close> without a leading \<open>BO<digits>:\<close> fragment, trimmed again.
  The name is 2 long or more, the confidence 95 and the source \<open>BO1\<close>. Conversely, when the
  first \<open>BO1\<close> of the first \<open>BO\<close> line is followed by such a substring, beginning with no
  white space and not with a \<open>BO2:\<close>/\<open>BO3:\<close> marker, the function returns that result, or
  \<open>null\<close> when the cleaned name is shorter than 2. A result of the LLM stage has confidence
  90 and source \<open>CHATGPT\<close>, its name is the trimmed answer of the model, and it is returned
  for every answer that is 2 long or more after trimming and is not \<open>NONE\<close>.
\<close>

theorem company_extraction_stages:
  "(\<exists>res. extractCompanyName ls amt = Inr res) \<and>
   (extractCompanyName ls amt = Inr (Some r) \<longrightarrow>
      (\<exists>lines i s p g post.
         ls = Some lines \<and> spec_first_bo lines i s \<and> spec_bo1_segment s p g post \<and>
         (\<forall>k. \<not> spec_bo_marker (drop k (trim g))) \<and>
         spec_cleaned (trim g) (companyName r) \<and> 2 \<le> length (companyName r) \<and>
         source r = BO1 \<and> confidence_pct r = 95 \<and> amount r = amt \<and> fullLine r = s)) \<and>
   (spec_first_bo pls i s \<and> spec_first_bo1 s p \<and> spec_bo1_segment s p g post \<and>
    \<not> is_space (hd g) \<and> \<not> spec_bo_marker (trim g) \<and> spec_cleaned (trim g) n \<longrightarrow>
      extractCompanyName (Some pls) amt =
        Inr (if length n < 2 then None
             else Some \<lparr> companyName = n, source = BO1, confidence_pct = 95, amount = amt,
                         fullLine = s \<rparr>)) \<and>
   (extractCompanyNameWithChatGPT llm raw = Some x \<longrightarrow>
      source x = CHATGPT \<and> confidence_pct x = 90 \<and> raw = Some (rawPaymentNotes x) \<and>
      (\<exists>answer. llm (prompt_for (rawPaymentNotes x)) = Inr answer \<and> companyName x = trim answer)) \<and>
   (pn \<noteq> [] \<and> llm (prompt_for pn) = Inr answer \<and> 2 \<le> length (trim answer) \<and>
    trim answer \<noteq> js ''NONE'' \<longrightarrow>
      extractCompanyNameWithChatGPT llm (Some pn) =
        Some \<lparr> companyName = trim answer, source = CHATGPT, confidence_pct = 90,
               rawPaymentNotes = pn \<rparr>)"
proof (intro conjI impI)
  show "\<exists>res. extractCompanyName ls amt = Inr res" by (rule extractCompanyName_returns)
next
  assume a: "extractCompanyName ls amt = Inr (Some r)"
  from extractCompanyName_sound [OF a] obtain lines i s g where
    c: "ls = Some lines" "spec_first_bo lines i s" "bo1Match s = Some g"
       "companyName r = clean_bo1 g" "2 \<le> length (companyName r)" "source r = BO1"
       "confidence_pct r = 95" "amount r = amt" "fullLine r = s"
    by blast
  from bo1Match_spec [OF c(3)] obtain p post where seg: "spec_bo1_segment s p g post" by blast
  then have min: "\<forall>k. 0 < k \<and> k < length g \<longrightarrow> \<not> spec_bo_marker (drop k g @ post)"
    and lt: "list_all (\<lambda>c. \<not> is_line_terminator c) g"
    unfolding spec_bo1_segment_def by blast+
  from c(4,5) have ne: "clean_bo1 g \<noteq> []" by auto
  have nom: "\<forall>k. \<not> spec_bo_marker (drop k (trim g))" by (rule no_marker_sound [OF min lt ne])
  have "companyName r = trim (strip_bo_prefix (trim g))"
    using c(4) clean_bo1_spec [OF nom] by simp
  with spec_cleaned_code [OF trim_trim, of g] have cl: "spec_cleaned (trim g) (companyName r)"
    by simp
  from c(1,2) seg nom cl c(5-9)
  show "\<exists>lines i s p g post.
         ls = Some lines \<and> spec_first_bo lines i s \<and> spec_bo1_segment s p g post \<and>
         (\<forall>k. \<not> spec_bo_marker (drop k (trim g))) \<and>
         spec_cleaned (trim g) (companyName r) \<and> 2 \<le> length (companyName r) \<and>
         source r = BO1 \<and> confidence_pct r = 95 \<and> amount r = amt \<and> fullLine r = s"
    by blast
next
  assume "spec_first_bo pls i s \<and> spec_first_bo1 s p \<and> spec_bo1_segment s p g post \<and>
    \<not> is_space (hd g) \<and> \<not> spec_bo_marker (trim g) \<and> spec_cleaned (trim g) n"
  then show "extractCompanyName (Some pls) amt =
        Inr (if length n < 2 then None
             else Some \<lparr> companyName = n, source = BO1, confidence_pct = 95, amount = amt,
                         fullLine = s \<rparr>)"
    using extractCompanyName_complete by blast
next
  assume a: "extractCompanyNameWithChatGPT llm raw = Some x"
  then obtain pn' where p: "raw = Some pn'" "pn' \<noteq> []"
    by (auto simp: extractCompanyNameWithChatGPT_def split: option.splits if_splits)
  with a obtain answer where an: "llm (prompt_for pn') = Inr answer"
    by (auto simp: extractCompanyNameWithChatGPT_def split: sum.splits)
  with a p have x: "x = \<lparr> companyName = trim answer, source = CHATGPT, confidence_pct = 90,
                          rawPaymentNotes = pn' \<rparr>"
    by (auto simp: extractCompanyNameWithChatGPT_def Let_def split: if_splits)
  from x show "source x = CHATGPT" "confidence_pct x = 90" by simp_all
  from x p show "raw = Some (rawPaymentNotes x)" by simp
  from x an show "\<exists>answer. llm (prompt_for (rawPaymentNotes x)) = Inr answer \<and>
      companyName x = trim answer" by simp
next
  assume "pn \<noteq> [] \<and> llm (prompt_for pn) = Inr answer \<and> 2 \<le> length (trim answer) \<and>
    trim answer \<noteq> js ''NONE''"
  then show "extractCompanyNameWithChatGPT llm (Some pn) =
        Some \<lparr> companyName = trim answer, source = CHATGPT, confidence_pct = 90,
               rawPaymentNotes = pn \<rparr>"
    by (auto simp: extractCompanyNameWithChatGPT_def Let_def)
qed

lemmas eval_extract = eval_str bo1Match_def bo1_at_def bo23_colon_def group_end_def clean_bo1_def
  strip_bo_prefix_def bo23_tail_def is_line_terminator_def extractCompanyName_def
  extractCompanyName_try_def extractCompanyNameWithChatGPT_def line_value_def Let_def

theorem company_extraction_stages_witness:
  "extractCompanyName (Some residue_lines) (Some 10)
     = Inr (Some \<lparr> companyName = js ''AC'', source = BO1, confidence_pct = 95, amount = Some 10,
                   fullLine = js ''BO:1 BO1:BO7:AC'' \<rparr>) \<and>
   extractCompanyName (Some (map line_value (parsePaymentNotes (Some scenario_notes)))) (Some 10)
     = Inr (Some \<lparr> companyName = js ''ACME LLC'', source = BO1, confidence_pct = 95,
                   amount = Some 10, fullLine = js ''BO:219062889 BO1:ACME LLC BO2:123 MAIN ST'' \<rparr>) \<and>
   extractCompanyName (Some [line_value short_name_line]) None = Inr None \<and>
   extractCompanyName (Some (Nullish # residue_lines)) None = Inr None \<and>
   extractCompanyName (Some [Object (Str (js ''BO'')) Other]) None = Inr None \<and>
   extractCompanyNameWithChatGPT (\<lambda>p. Inr (js '' Acme '')) (Some scenario_notes)
     = Some \<lparr> companyName = js ''Acme'', source = CHATGPT, confidence_pct = 90,
              rawPaymentNotes = scenario_notes \<rparr>"
proof -
  let ?s = "js ''BO:1 BO1:BO7:AC''"
  let ?g = "js ''BO7:AC''"
  have fb: "spec_first_bo residue_lines 1 ?s"
    by (simp add: spec_first_bo_def residue_lines_def js_def)
  have f1: "spec_first_bo1 ?s (js ''BO:1 '')"
    by (simp add: spec_first_bo1_def js_def upper_def All_less_Suc)
  have inside: "\<not> spec_bo_marker (drop k ?g @ [])" if "0 < k \<and> k < length ?g" for k
  proof -
    from that have "k = 1 \<or> k = 2 \<or> k = 3 \<or> k = 4 \<or> k = 5" by (auto simp: js_def)
    then show ?thesis
      by (elim disjE) (simp_all add: spec_bo_marker_iff eval_extract)
  qed
  have "\<exists>mk w1 w2. ?s = js ''BO:1 '' @ mk @ w1 @ 58 # w2 @ ?g @ [] \<and>
          map upper mk = js ''BO1'' \<and> list_all is_space w1 \<and> list_all is_space w2"
    by (rule exI [of _ "js ''BO1''"], rule exI [of _ "[]"], rule exI [of _ "[]"])
       (simp add: js_def upper_def)
  with inside have seg: "spec_bo1_segment ?s (js ''BO:1 '') ?g []"
    unfolding spec_bo1_segment_def by (simp add: js_def is_line_terminator_def)
  have tg: "trim ?g = ?g" by (simp add: eval_str)
  have hd: "\<not> is_space (hd ?g)" by (simp add: eval_str)
  have nm: "\<not> spec_bo_marker (trim ?g)"
    unfolding tg by (simp add: spec_bo_marker_iff eval_extract)
  have "spec_bo_prefix ?g (js ''AC'')"
    by (simp add: spec_bo_prefix_iff eval_str)
  moreover have "js ''AC'' = trim (js ''AC'')" by (simp add: eval_str)
  ultimately have cl: "spec_cleaned (trim ?g) (js ''AC'')"
    unfolding tg spec_cleaned_def by blast
  note stages = company_extraction_stages [where pls = residue_lines and i = 1 and s = ?s
      and p = "js ''BO:1 ''" and g = ?g and post = "[]" and n = "js ''AC''" and amt = "Some 10"
      and pn = scenario_notes and llm = "\<lambda>p. Inr (js '' Acme '')" and answer = "js '' Acme ''"]
  from stages fb f1 seg hd nm cl
  have h1: "extractCompanyName (Some residue_lines) (Some 10)
     = Inr (if length (js ''AC'') < 2 then None
            else Some \<lparr> companyName = js ''AC'', source = BO1, confidence_pct = 95,
                        amount = Some 10, fullLine = ?s \<rparr>)"
    by blast
  have "scenario_notes \<noteq> [] \<and> 2 \<le> length (trim (js '' Acme '')) \<and>
      trim (js '' Acme '') \<noteq> js ''NONE''"
    by (simp add: scenario_notes_def eval_str)
  with stages have h6: "extractCompanyNameWithChatGPT (\<lambda>p. Inr (js '' Acme '')) (Some scenario_notes)
     = Some \<lparr> companyName = trim (js '' Acme ''), source = CHATGPT, confidence_pct = 90,
              rawPaymentNotes = scenario_notes \<rparr>"
    by blast
  have h2: "extractCompanyName (Some (map line_value (parsePaymentNotes (Some scenario_notes)))) (Some 10)
     = Inr (Some \<lparr> companyName = js ''ACME LLC'', source = BO1, confidence_pct = 95,
                   amount = Some 10, fullLine = js ''BO:219062889 BO1:ACME LLC BO2:123 MAIN ST'' \<rparr>)"
    by (simp add: scenario_notes_parsed eval_extract)
  have h3: "extractCompanyName (Some [line_value short_name_line]) None = Inr None"
    by (simp add: short_name_line_def eval_extract)
  have h4: "extractCompanyName (Some (Nullish # residue_lines)) None = Inr None"
    by (simp add: extractCompanyName_def extractCompanyName_try_def)
  have h5: "extractCompanyName (Some [Object (Str (js ''BO'')) Other]) None = Inr None"
    by (simp add: extractCompanyName_def extractCompanyName_try_def)
  from h1 h2 h3 h4 h5 h6 show ?thesis by (simp add: eval_str)
qed

end
